theory Spec2Isabelle
  imports Main "HOL-Library.Sublist"
begin

section \<open>The book builder of \<^verbatim>\<open>src/tools/modules/book.js\<close>\<close>

text \<open>
  The development embeds the segmentation loop of \<^verbatim>\<open>build\<close> (lines 133 to 299 of
  \<^verbatim>\<open>book.js\<close>): the loop over the lines of \<^verbatim>\<open>source\<close>, its nine local
  variables and the \<^verbatim>\<open>summary.pop()\<close> that follows it. \<^verbatim>\<open>source\<close> is the value the
  variable holds at line 163, after the comments have been removed at line 82. Numbers
  are natural numbers: the counters of a book stay far below the range where JavaScript
  numbers lose precision.

  A JavaScript string is modelled as the list of its UTF-16 code units, each an integer
  (from 0 to 65535 in a real string; no definition depends on the bounds). The Markdown
  renderer \<^verbatim>\<open>mdIt\<close> and the Unicode tables of the JavaScript engine are external
  and are parameters of the model.
\<close>

subsection \<open>String primitives\<close>

type_synonym code_unit = int

type_synonym jstring = "code_unit list"

text \<open>A string literal of the source, written in ASCII, as a JavaScript string.\<close>

definition js :: "string \<Rightarrow> jstring" where
  "js s = map of_char s"

definition HASH :: code_unit where "HASH = 0x23"
definition SPACE :: code_unit where "SPACE = 0x20"
definition DASH :: code_unit where "DASH = 0x2D"
definition UNDERSCORE :: code_unit where "UNDERSCORE = 0x5F"
definition LF :: code_unit where "LF = 0x0A"
definition CR :: code_unit where "CR = 0x0D"

text \<open>The line separator U+2028 and the paragraph separator U+2029.\<close>

definition LS :: code_unit where "LS = 0x2028"
definition PS :: code_unit where "PS = 0x2029"

definition startsWith :: "jstring \<Rightarrow> jstring \<Rightarrow> bool" where
  "startsWith line p = (take (length p) line = p)"

text \<open>
  \<^verbatim>\<open>source.split(/\r\n|\r|\n/g)\<close>: the empty string splits into one empty line. The
  separators U+2028 and U+2029 do not split: they stay inside the lines.
\<close>

fun split_lines :: "jstring \<Rightarrow> jstring list" where
  "split_lines [] = [[]]"
| "split_lines (c # cs) =
     (if c = CR then
        (case cs of
           [] \<Rightarrow> [] # split_lines cs
         | d # ds \<Rightarrow> if d = LF then [] # split_lines ds else [] # split_lines cs)
      else if c = LF then [] # split_lines cs
      else (case split_lines cs of
              [] \<Rightarrow> [[c]]
            | l # ls \<Rightarrow> (c # l) # ls))"

declare split_lines.simps(2) [simp del]

text \<open>
  \<^verbatim>\<open>String.prototype.trim\<close> removes white space and line terminators from both ends:
  TAB, LF, VT, FF, CR, SPACE, NBSP, the space separators U+1680, U+2000 to U+200A, U+202F,
  U+205F and U+3000, the separators U+2028 and U+2029, and the byte order mark U+FEFF.
\<close>

definition is_white_space :: "code_unit \<Rightarrow> bool" where
  "is_white_space c =
     (c = 0x09 \<or> c = 0x0A \<or> c = 0x0B \<or> c = 0x0C \<or> c = 0x0D \<or> c = 0x20 \<or> c = 0xA0
      \<or> c = 0x1680 \<or> (0x2000 \<le> c \<and> c \<le> 0x200A) \<or> c = 0x2028 \<or> c = 0x2029
      \<or> c = 0x202F \<or> c = 0x205F \<or> c = 0x3000 \<or> c = 0xFEFF)"

definition trim :: "jstring \<Rightarrow> jstring" where
  "trim s = rev (dropWhile is_white_space (rev (dropWhile is_white_space s)))"

text \<open>\<^verbatim>\<open>Array.prototype.join\<close> on a list of strings.\<close>

fun join :: "jstring \<Rightarrow> jstring list \<Rightarrow> jstring" where
  "join sep [] = []"
| "join sep [x] = x"
| "join sep (x # y # ys) = x @ sep @ join sep (y # ys)"

text \<open>The decimal numeral of a natural number, as \<^verbatim>\<open>join\<close> prints a counter.\<close>

definition digit_char :: "nat \<Rightarrow> code_unit" where
  "digit_char d = 48 + int d"

fun number_string :: "nat \<Rightarrow> jstring" where
  "number_string n =
     (if n < 10 then [digit_char n]
      else number_string (n div 10) @ [digit_char (n mod 10)])"

declare number_string.simps [simp del]

subsection \<open>The heading pattern (lines 173 to 179)\<close>

text \<open>
  \<^verbatim>\<open>line.match(/^(#+) *(.*)$/)\<close>. The three quantifiers are greedy and the pattern is
  anchored at both ends, so the first group (\<open>hashes_of\<close>) is the whole run of leading
  hashes, the spaces after it are skipped and the second group (\<open>title_of\<close>) is the rest
  of the line. A dot matches no line terminator, that is none of LF, CR, U+2028 and
  U+2029: when one remains, there is no match and the result is \<^verbatim>\<open>null\<close>.
\<close>

definition is_line_terminator :: "code_unit \<Rightarrow> bool" where
  "is_line_terminator c = (c = LF \<or> c = CR \<or> c = LS \<or> c = PS)"

definition hashes_of :: "jstring \<Rightarrow> jstring" where
  "hashes_of line = takeWhile (\<lambda>c. c = HASH) line"

definition title_of :: "jstring \<Rightarrow> jstring" where
  "title_of line = dropWhile (\<lambda>c. c = SPACE) (dropWhile (\<lambda>c. c = HASH) line)"

definition heading_match :: "jstring \<Rightarrow> (jstring \<times> jstring) option" where
  "heading_match line =
     (if hashes_of line = [] \<or> list_ex is_line_terminator (title_of line) then None
      else Some (hashes_of line, title_of line))"

subsection \<open>What the loop takes from outside\<close>

text \<open>
  The two entry points of the external module \<^verbatim>\<open>markdown-it\<close> that the loop calls
  (\<^verbatim>\<open>mdIt.render\<close> and \<^verbatim>\<open>mdIt.renderInline\<close>), and the lower-casing of the
  JavaScript engine on a string that holds a code unit outside ASCII, which follows the
  Unicode tables of the engine.
\<close>

record host =
  render :: "jstring \<Rightarrow> jstring"
  renderInline :: "jstring \<Rightarrow> jstring"
  toLocaleLowerCase_wide :: "jstring \<Rightarrow> jstring"

subsection \<open>The slug (lines 182 to 186)\<close>

text \<open>
  \<^verbatim>\<open>toLocaleLowerCase\<close>: in a string of ASCII code units the capital letters A to Z
  become the small letters, each 32 above its capital, and nothing else changes (in a
  locale without rules of its own for ASCII letters). Any other string is lower-cased by
  the engine's tables.
\<close>

definition is_ascii :: "code_unit \<Rightarrow> bool" where
  "is_ascii c = (0 \<le> c \<and> c < 128)"

definition toLowerCase_ascii :: "code_unit \<Rightarrow> code_unit" where
  "toLowerCase_ascii c = (if 65 \<le> c \<and> c \<le> 90 then c + 32 else c)"

definition toLocaleLowerCase :: "host \<Rightarrow> jstring \<Rightarrow> jstring" where
  "toLocaleLowerCase R s =
     (if list_all is_ascii s then map toLowerCase_ascii s else toLocaleLowerCase_wide R s)"

text \<open>\<^verbatim>\<open>.replace(/ /g, '-')\<close>\<close>

definition spaces_to_dashes :: "jstring \<Rightarrow> jstring" where
  "spaces_to_dashes s = map (\<lambda>c. if c = SPACE then DASH else c) s"

text \<open>The code units that \<^verbatim>\<open>/[^a-z0-9-_]/g\<close> leaves in place.\<close>

definition is_slug_char :: "code_unit \<Rightarrow> bool" where
  "is_slug_char c =
     ((97 \<le> c \<and> c \<le> 122) \<or> (48 \<le> c \<and> c \<le> 57) \<or> c = DASH \<or> c = UNDERSCORE)"

definition remove_special :: "jstring \<Rightarrow> jstring" where
  "remove_special s = filter is_slug_char s"

definition slug_of :: "host \<Rightarrow> jstring \<Rightarrow> jstring" where
  "slug_of R title = remove_special (spaces_to_dashes (toLocaleLowerCase R title))"

subsection \<open>The data the loop builds\<close>

text \<open>
  \<^verbatim>\<open>title_obj\<close> (lines 252 to 270). The field \<^verbatim>\<open>text\<close> is named \<open>title_text\<close> here
  and the marker \<^verbatim>\<open>_TITLE\<close> is the constructor \<open>Title\<close> below.
\<close>

record title_obj =
  title_text :: jstring
  slug :: jstring
  depth :: nat
  section_slug :: jstring
  is_main_title :: bool
  is_section :: bool
  is_subtitle :: bool
  is_max_subtitle :: bool
  is_subsubtitle_or_more :: bool
  depth_dec :: nat
  prettydepth :: jstring

text \<open>An entry of a section buffer: a title object or a block of rendered HTML
  (\<^verbatim>\<open>{ _CONTENT: true, html }\<close>, lines 209 to 212).\<close>

datatype item = Title title_obj | Content jstring

text \<open>A pushed section (lines 227 to 230): \<^verbatim>\<open>{ slug: lastSlug, content: sectionBuff }\<close>.\<close>

record section_obj =
  sec_slug :: jstring
  sec_content :: "item list"

text \<open>
  A slot of the JavaScript array \<^verbatim>\<open>counter\<close>: a number, \<^verbatim>\<open>NaN\<close>, or a hole left
  by a write beyond the end of the array.
\<close>

datatype cell = Num nat | NaN | Hole

text \<open>The local variables of \<^verbatim>\<open>build\<close> that the loop reads and writes (lines 134 to 158).\<close>

record state =
  summary :: "title_obj list"
  sections :: "section_obj list"
  sectionBuff :: "item list"
  titleBuff :: "jstring list"
  mainTitle :: "title_obj option"
  lastSlug :: jstring
  counter :: "cell list"
  firstSection :: bool
  inCodeBlock :: bool

definition init_state :: state where
  "init_state =
     \<lparr>summary = [], sections = [], sectionBuff = [], titleBuff = [], mainTitle = None,
      lastSlug = [], counter = [Num 0, Num 0, Num 0, Num 0, Num 0],
      firstSection = True, inCodeBlock = False\<rparr>"

text \<open>
  How a build ends before its time: with the exit code given to \<^verbatim>\<open>error\<close>, or with
  the \<^verbatim>\<open>TypeError\<close> that JavaScript throws when \<^verbatim>\<open>match[1]\<close> is read from
  \<^verbatim>\<open>null\<close>.
\<close>

datatype failure = Exit nat | TypeError

text \<open>
  Modelled from the spec: the helper \<^verbatim>\<open>error(message, code)\<close> of the build tools is
  not among the sources. Section 4.4 of the specification says that a structural violation
  is fatal for the whole build and that the surrounding process aborts the conversion, so a
  call ends the build with the exit code it is given.
\<close>

definition error :: "nat \<Rightarrow> failure + 'a" where
  "error code = Inl (Exit code)"

subsection \<open>The numbering counter (lines 241 to 249 and 269)\<close>

text \<open>
  \<^verbatim>\<open>counter[depth] ++\<close>: a number is incremented; a slot that holds no number reads as
  \<^verbatim>\<open>undefined\<close> or \<^verbatim>\<open>NaN\<close> and becomes \<^verbatim>\<open>NaN\<close>. A write beyond the end extends
  the array and leaves holes between.
\<close>

definition increment_cell :: "cell \<Rightarrow> cell" where
  "increment_cell c = (case c of Num n \<Rightarrow> Num (n + 1) | NaN \<Rightarrow> NaN | Hole \<Rightarrow> NaN)"

definition increment_at :: "nat \<Rightarrow> cell list \<Rightarrow> cell list" where
  "increment_at d cs =
     (if d < length cs then cs[d := increment_cell (cs ! d)]
      else cs @ replicate (d - length cs) Hole @ [NaN])"

text \<open>\<^verbatim>\<open>for (let i = depth + 1; i < counter.length; i++) counter[i] = 0\<close>\<close>

definition reset_above :: "nat \<Rightarrow> cell list \<Rightarrow> cell list" where
  "reset_above d cs = foldl (\<lambda>a i. a[i := Num 0]) cs [d + 1 ..< length cs]"

definition advance_counter :: "nat \<Rightarrow> cell list \<Rightarrow> cell list" where
  "advance_counter d cs = (if d \<noteq> 1 then reset_above d (increment_at d cs) else cs)"

text \<open>\<^verbatim>\<open>counter.filter(c => c > 0)\<close>: holes are skipped and \<^verbatim>\<open>NaN > 0\<close> is false.\<close>

fun positive_counters :: "cell list \<Rightarrow> nat list" where
  "positive_counters [] = []"
| "positive_counters (Num n # cs) = (if n > 0 then n # positive_counters cs else positive_counters cs)"
| "positive_counters (NaN # cs) = positive_counters cs"
| "positive_counters (Hole # cs) = positive_counters cs"

definition prettydepth_of :: "nat \<Rightarrow> cell list \<Rightarrow> jstring" where
  "prettydepth_of d cs =
     (if d = 1 then js ''0.''
      else join (js ''.'') (map number_string (positive_counters cs)) @ js ''.'')"

subsection \<open>One line of the loop (lines 165 to 295)\<close>

text \<open>Lines 202 to 216: the buffered lines are rendered and kept when the HTML is not blank.\<close>

definition flush_titleBuff :: "host \<Rightarrow> state \<Rightarrow> state" where
  "flush_titleBuff R st =
     (let html = render R (join [LF] (titleBuff st))
      in st\<lparr>sectionBuff := (if trim html \<noteq> [] then sectionBuff st @ [Content html]
                             else sectionBuff st),
            titleBuff := []\<rparr>)"

text \<open>Lines 219 to 238: a title of depth 2 closes the section before it, the first excepted.\<close>

definition close_section :: "jstring \<Rightarrow> state \<Rightarrow> state" where
  "close_section s st =
     (if firstSection st then st\<lparr>firstSection := False, lastSlug := s\<rparr>
      else st\<lparr>sections := sections st @ [\<lparr>sec_slug = lastSlug st, sec_content = sectionBuff st\<rparr>],
              sectionBuff := [], lastSlug := s\<rparr>)"

text \<open>Lines 252 to 270.\<close>

definition make_title_obj :: "host \<Rightarrow> jstring \<Rightarrow> nat \<Rightarrow> state \<Rightarrow> title_obj" where
  "make_title_obj R title d st =
     \<lparr>title_text = renderInline R title,
      slug = slug_of R title,
      depth = d,
      section_slug = lastSlug st,
      is_main_title = (d = 1),
      is_section = (d = 2),
      is_subtitle = (d = 3),
      is_max_subtitle = (d \<le> 3),
      is_subsubtitle_or_more = (d > 3),
      depth_dec = d - 1,
      prettydepth = prettydepth_of d (counter st)\<rparr>"

text \<open>Lines 272 to 281.\<close>

definition push_title :: "title_obj \<Rightarrow> state \<Rightarrow> state" where
  "push_title t st =
     (if depth t = 1 then st\<lparr>summary := summary st @ [t], mainTitle := Some t\<rparr>
      else st\<lparr>summary := summary st @ [t], sectionBuff := sectionBuff st @ [Title t]\<rparr>)"

text \<open>Lines 200 to 281, once the title has passed the two checks of lines 188 to 198.\<close>

definition add_title :: "host \<Rightarrow> jstring \<Rightarrow> nat \<Rightarrow> state \<Rightarrow> state" where
  "add_title R title d st =
     (let st1 = (if d \<ge> 2 then flush_titleBuff R st else st);
          st2 = (if d = 2 then close_section (slug_of R title) st1 else st1);
          st3 = st2\<lparr>counter := advance_counter d (counter st2)\<rparr>
      in push_title (make_title_obj R title d st3) st3)"

text \<open>Lines 171 to 282: the branch of a line that is a title.\<close>

definition process_title :: "host \<Rightarrow> state \<Rightarrow> jstring \<Rightarrow> failure + state" where
  "process_title R st line =
     (case heading_match line of
        None \<Rightarrow> Inl TypeError
      | Some (hashes, title) \<Rightarrow>
          (let d = length hashes
           in if summary st = [] then
                (if d \<noteq> 1 then error 9 else Inr (add_title R title d st))
              else if d = 1 then error 10
              else Inr (add_title R title d st)))"

text \<open>The body of the loop.\<close>

definition process_line :: "host \<Rightarrow> state \<Rightarrow> jstring \<Rightarrow> failure + state" where
  "process_line R st0 line =
     (let st = (if startsWith line (js ''```'') then st0\<lparr>inCodeBlock := \<not> inCodeBlock st0\<rparr> else st0)
      in if startsWith line (js ''#'') \<and> \<not> inCodeBlock st then process_title R st line
         else if length (summary st) \<le> 1 then
           (if trim line \<noteq> [] then error 11 else Inr st)
         else Inr (st\<lparr>titleBuff := titleBuff st @ [line]\<rparr>))"

text \<open>The loop: the first call of \<^verbatim>\<open>error\<close> ends it.\<close>

fun process_lines :: "host \<Rightarrow> state \<Rightarrow> jstring list \<Rightarrow> failure + state" where
  "process_lines R st [] = Inr st"
| "process_lines R st (l # ls) =
     (case process_line R st l of
        Inl e \<Rightarrow> Inl e
      | Inr st' \<Rightarrow> process_lines R st' ls)"

definition END_OF_FILE :: jstring where
  "END_OF_FILE = js ''## END OF FILE''"

text \<open>
  Lines 163 to 299 on a list of lines: the loop over the lines and the marker appended to
  them, then \<^verbatim>\<open>summary.pop()\<close>, which leaves an empty array as it is.
\<close>

definition segment_lines :: "host \<Rightarrow> jstring list \<Rightarrow> failure + state" where
  "segment_lines R ls =
     (case process_lines R init_state (ls @ [END_OF_FILE]) of
        Inl e \<Rightarrow> Inl e
      | Inr st \<Rightarrow> Inr (st\<lparr>summary := butlast (summary st)\<rparr>))"

definition segment :: "host \<Rightarrow> jstring \<Rightarrow> failure + state" where
  "segment R source = segment_lines R (split_lines source)"

text \<open>
  The rest of \<^verbatim>\<open>build\<close> (lines 301 to 463) hands \<^verbatim>\<open>mainTitle\<close>, \<^verbatim>\<open>summary\<close> and
  \<^verbatim>\<open>sections\<close> to the template and writes the page to
  \<^verbatim>\<open>output_folder + '/' + name + '.book.html'\<close>. The template engine is a parameter,
  and the checks on the book name and on the files (exit codes 6 to 8 and 12 to 16) are
  taken as passed. The result is the file written, as its path and its content, or the
  failure that ended the build before the write.
\<close>

definition build ::
  "host \<Rightarrow> (title_obj option \<Rightarrow> title_obj list \<Rightarrow> section_obj list \<Rightarrow> jstring) \<Rightarrow>
   jstring \<Rightarrow> jstring \<Rightarrow> jstring \<Rightarrow> failure + (jstring \<times> jstring)" where
  "build R template output_folder name source =
     (case segment R source of
        Inl e \<Rightarrow> Inl e
      | Inr st \<Rightarrow>
          Inr (output_folder @ js ''/'' @ name @ js ''.book.html'',
               template (mainTitle st) (summary st) (sections st)))"

subsection \<open>Notions used to state the properties\<close>

text \<open>The number of lines that open or close a code block.\<close>

definition fence_count :: "jstring list \<Rightarrow> nat" where
  "fence_count ls = length (filter (\<lambda>l. startsWith l (js ''```'')) ls)"

text \<open>
  The depths of the titles of a list of lines, in order: a title is a line that starts with
  a hash outside a code block. The flag says whether the lines start inside a code block.
\<close>

fun heading_depths :: "bool \<Rightarrow> jstring list \<Rightarrow> nat list" where
  "heading_depths b [] = []"
| "heading_depths b (l # ls) =
     (let b' = (if startsWith l (js ''```'') then \<not> b else b)
      in if startsWith l (js ''#'') \<and> \<not> b' then length (hashes_of l) # heading_depths b' ls
         else heading_depths b' ls)"



text \<open>The slug of the last title of depth 2 in a list of titles; empty when there is none.\<close>

definition last_section_slug :: "title_obj list \<Rightarrow> jstring" where
  "last_section_slug ts =
     (let s = filter (\<lambda>t. depth t = 2) ts in if s = [] then [] else slug (last s))"

text \<open>A host whose three functions return their input, for concrete runs.\<close>

definition plain_host :: host where
  "plain_host = \<lparr>render = id, renderInline = id, toLocaleLowerCase_wide = id\<rparr>"

definition plain_template :: "title_obj option \<Rightarrow> title_obj list \<Rightarrow> section_obj list \<Rightarrow> jstring" where
  "plain_template t s c = concat (map title_text s)"

text \<open>
  The state after a line that is not a title: the flag of the code block follows the line,
  and the line is buffered once a section is open.
\<close>

definition buffer_line :: "state \<Rightarrow> jstring \<Rightarrow> state" where
  "buffer_line st l =
     st\<lparr>inCodeBlock := (inCodeBlock st \<noteq> startsWith l (js ''```'')),
        titleBuff := (if length (summary st) \<le> 1 then titleBuff st else titleBuff st @ [l])\<rparr>"

text \<open>The title object that a title line adds to \<open>summary\<close>.\<close>

definition new_title :: "host \<Rightarrow> jstring \<Rightarrow> nat \<Rightarrow> state \<Rightarrow> title_obj" where
  "new_title R t d st = last (summary (add_title R t d st))"

text \<open>The labels of a run of titles, from their depths and the counter before the run.\<close>

fun labels :: "cell list \<Rightarrow> nat list \<Rightarrow> jstring list" where
  "labels cs [] = []"
| "labels cs (d # ds) =
     prettydepth_of d (advance_counter d cs) # labels (advance_counter d cs) ds"

section \<open>Properties\<close>

subsection \<open>Lines and strings\<close>

lemma js_hash: "js ''#'' = [HASH]"
  by (simp add: js_def HASH_def)

lemma js_fence: "js ''```'' = [96, 96, 96]"
  by (simp add: js_def)

lemma startsWith_hash: "startsWith l (js ''#'') \<longleftrightarrow> (\<exists>r. l = HASH # r)"
  by (cases l) (auto simp: startsWith_def js_hash)

lemma startsWith_fence_not_hash: "startsWith l (js ''```'') \<Longrightarrow> \<not> startsWith l (js ''#'')"
  by (cases l) (auto simp: startsWith_def js_hash js_fence HASH_def)

lemma trim_empty_iff: "trim s = [] \<longleftrightarrow> list_all is_white_space s"
proof
  assume "trim s = []"
  then have "dropWhile is_white_space (rev (dropWhile is_white_space s)) = []"
    by (simp add: trim_def)
  then have "\<forall>x\<in>set (dropWhile is_white_space s). is_white_space x"
    by simp
  then have "dropWhile is_white_space s = []"
    by (metis hd_dropWhile hd_in_set)
  then show "list_all is_white_space s"
    by (simp add: list_all_iff)
next
  assume "list_all is_white_space s"
  then have "dropWhile is_white_space s = []"
    by (simp add: list_all_iff)
  then show "trim s = []"
    by (simp only: trim_def rev.simps dropWhile.simps)
qed

lemma blank_not_fence: "trim l = [] \<Longrightarrow> \<not> startsWith l (js ''```'')"
  by (cases l) (auto simp: trim_empty_iff startsWith_def is_white_space_def js_fence)

lemma fence_not_blank: "startsWith l (js ''```'') \<Longrightarrow> trim l \<noteq> []"
  using blank_not_fence by blast

text \<open>The body of the loop on a title, on a fence line and inside a code block.\<close>

lemma process_line_title:
  "startsWith l (js ''#'') \<Longrightarrow> \<not> inCodeBlock st \<Longrightarrow> process_line R st l = process_title R st l"
  using startsWith_fence_not_hash [of l] by (auto simp: process_line_def)

lemma process_line_fence:
  "startsWith l (js ''```'') \<Longrightarrow>
   process_line R st l =
     (if length (summary st) \<le> 1 then error 11
      else Inr (st\<lparr>inCodeBlock := \<not> inCodeBlock st, titleBuff := titleBuff st @ [l]\<rparr>))"
  using startsWith_fence_not_hash [of l] fence_not_blank [of l] by (auto simp: process_line_def)

lemma process_line_in_block:
  "inCodeBlock st \<Longrightarrow> \<not> startsWith l (js ''```'') \<Longrightarrow>
   process_line R st l =
     (if length (summary st) \<le> 1 then (if trim l \<noteq> [] then error 11 else Inr st)
      else Inr (st\<lparr>titleBuff := titleBuff st @ [l]\<rparr>))"
  by (simp add: process_line_def)

text \<open>The entry that a title adds to \<open>summary\<close>.\<close>

lemma summary_add_title:
  "summary (add_title R t d st) =
     summary st @ [make_title_obj R t d
        ((if d = 2 then close_section (slug_of R t) (if d \<ge> 2 then flush_titleBuff R st else st)
          else (if d \<ge> 2 then flush_titleBuff R st else st))
         \<lparr>counter := advance_counter d (counter st)\<rparr>)]"
  by (simp add: add_title_def push_title_def Let_def make_title_obj_def close_section_def
      flush_titleBuff_def)

subsection \<open>Splitting the source into lines\<close>

lemma split_lines_nonempty: "split_lines s \<noteq> []"
proof (cases s)
  case Nil
  then show ?thesis by simp
next
  case (Cons c cs)
  show ?thesis
    unfolding Cons by (subst split_lines.simps(2)) (simp split: list.splits)
qed

lemma split_lines_no_LF_CR:
  "l \<in> set (split_lines s) \<Longrightarrow> LF \<notin> set l \<and> CR \<notin> set l"
proof (induction s arbitrary: l rule: split_lines.induct)
  case 1
  then show ?case by simp
next
  case (2 c cs)
  show ?case
  proof (cases "c = CR")
    case True
    show ?thesis
    proof (cases cs)
      case Nil
      with True "2.prems" show ?thesis
        by (auto simp: split_lines.simps(2))
    next
      case (Cons d ds)
      show ?thesis
      proof (cases "d = LF")
        case dLF: True
        with True Cons "2.prems" have "l = [] \<or> l \<in> set (split_lines ds)"
          by (simp add: split_lines.simps(2))
        with "2.IH"(2) [OF True Cons dLF] show ?thesis by auto
      next
        case dLF: False
        with True Cons "2.prems" have "l = [] \<or> l \<in> set (split_lines cs)"
          by (simp add: split_lines.simps(2))
        with "2.IH"(3) [OF True Cons dLF] show ?thesis by auto
      qed
    qed
  next
    case False
    show ?thesis
    proof (cases "c = LF")
      case True
      with False "2.prems" have "l = [] \<or> l \<in> set (split_lines cs)"
        by (simp add: split_lines.simps(2))
      with "2.IH"(4) [OF False True] show ?thesis by auto
    next
      case cLF: False
      obtain l' ls where sp: "split_lines cs = l' # ls"
        using split_lines_nonempty [of cs] by (cases "split_lines cs") auto
      with False cLF "2.prems" have "l = c # l' \<or> l \<in> set ls"
        by (simp add: split_lines.simps(2))
      moreover have "LF \<notin> set l' \<and> CR \<notin> set l'"
        using "2.IH"(5) [OF False cLF, of l'] sp by simp
      moreover have "\<And>x. x \<in> set ls \<Longrightarrow> LF \<notin> set x \<and> CR \<notin> set x"
        using "2.IH"(5) [OF False cLF] sp by simp
      ultimately show ?thesis
        using False cLF by auto
    qed
  qed
qed

subsection \<open>Titles and failures\<close>

lemma process_lines_append:
  "process_lines R st (xs @ ys) =
     (case process_lines R st xs of Inl e \<Rightarrow> Inl e | Inr st' \<Rightarrow> process_lines R st' ys)"
  by (induction xs arbitrary: st) (auto split: sum.splits)

lemma title_of_no_terminator:
  "\<not> list_ex is_line_terminator l \<Longrightarrow> \<not> list_ex is_line_terminator (title_of l)"
  by (auto simp: title_of_def list_ex_iff dest!: set_dropWhileD)

lemma hashes_of_nonempty: "startsWith l (js ''#'') \<Longrightarrow> hashes_of l \<noteq> []"
  by (auto simp: startsWith_hash hashes_of_def)

lemma heading_match_Some:
  "startsWith l (js ''#'') \<Longrightarrow> \<not> list_ex is_line_terminator l \<Longrightarrow>
   heading_match l = Some (hashes_of l, title_of l)"
  by (simp add: heading_match_def hashes_of_nonempty title_of_no_terminator)

lemma heading_match_SomeD:
  assumes "heading_match l = Some (h, t)"
  shows "h = hashes_of l" and "t = title_of l" and "h \<noteq> []" and "startsWith l (js ''#'')"
proof -
  from assms show h: "h = hashes_of l" and "t = title_of l" and ne: "h \<noteq> []"
    by (auto simp: heading_match_def split: if_splits)
  from ne have "takeWhile (\<lambda>c. c = HASH) l \<noteq> []"
    unfolding h hashes_of_def .
  then show "startsWith l (js ''#'')"
    by (cases l) (auto simp: startsWith_hash split: if_splits)
qed

lemma process_title_eq:
  assumes "heading_match l = Some (h, t)"
  shows "process_title R st l =
     (if summary st = [] \<and> length h \<noteq> 1 then Inl (Exit 9)
      else if summary st \<noteq> [] \<and> length h = 1 then Inl (Exit 10)
      else Inr (add_title R t (length h) st))"
  using assms by (simp add: process_title_def error_def)

text \<open>
  A line that starts with a hash outside a code block and does not match the pattern ends
  the build with the \<^verbatim>\<open>TypeError\<close> of line 176.
\<close>

lemma process_line_null_match:
  assumes "startsWith l (js ''#'')" and "\<not> inCodeBlock st" and "heading_match l = None"
  shows "process_line R st l = Inl TypeError"
  using assms startsWith_fence_not_hash [of l]
  by (auto simp: process_line_def process_title_def)

text \<open>A failure at one line is the result of the whole build.\<close>

lemma segment_lines_failure:
  assumes "process_lines R init_state pre = Inr st" and "process_line R st l = Inl e"
  shows "segment_lines R (pre @ l # post) = Inl e"
  using assms by (simp add: segment_lines_def process_lines_append)

lemma build_failure:
  assumes "split_lines source = pre @ l # post"
    and "process_lines R init_state pre = Inr st" and "process_line R st l = Inl e"
  shows "build R template output_folder name source = Inl e"
  using assms segment_lines_failure [OF assms(2,3), of post]
  by (simp add: build_def segment_def)



subsection \<open>The effect of one line\<close>

lemma process_line_cases:
  assumes "process_line R st l = Inr st'"
  obtains (title) "startsWith l (js ''#'')" and "\<not> inCodeBlock st"
      and "st' = add_title R (title_of l) (length (hashes_of l)) st"
      and "summary st = [] \<longleftrightarrow> length (hashes_of l) = 1"
      and "hashes_of l \<noteq> []"
      and "heading_match l = Some (hashes_of l, title_of l)"
  | (other) "\<not> (startsWith l (js ''#'') \<and> \<not> inCodeBlock st)" and "st' = buffer_line st l"
      and "length (summary st) \<le> 1 \<longrightarrow> trim l = []"
proof (cases "startsWith l (js ''#'') \<and> \<not> inCodeBlock st")
  case True
  then have "process_title R st l = Inr st'"
    using assms by (simp add: process_line_title)
  then obtain h t where m: "heading_match l = Some (h, t)"
    and r: "(if summary st = [] then (if length h \<noteq> 1 then error 9 else Inr (add_title R t (length h) st))
             else if length h = 1 then error 10 else Inr (add_title R t (length h) st)) = Inr st'"
    by (auto simp: process_title_def Let_def split: option.splits)
  from heading_match_SomeD [OF m] have h: "h = hashes_of l" and t: "t = title_of l"
    and ne: "hashes_of l \<noteq> []" by auto
  from m have m': "heading_match l = Some (hashes_of l, title_of l)"
    unfolding h t .
  from r have "st' = add_title R (title_of l) (length (hashes_of l)) st"
    and "summary st = [] \<longleftrightarrow> length (hashes_of l) = 1"
    unfolding h t by (auto simp: error_def split: if_splits)
  with True ne m' show ?thesis by (auto intro: title)
next
  case False
  show ?thesis
  proof (cases "startsWith l (js ''```'')")
    case fence: True
    with assms have "st' = buffer_line st l" and "length (summary st) \<le> 1 \<longrightarrow> trim l = []"
      by (auto simp: process_line_fence buffer_line_def error_def split: if_splits)
    with False show ?thesis by (auto intro: other)
  next
    case nofence: False
    have "process_line R st l =
       (if length (summary st) \<le> 1 then (if trim l \<noteq> [] then error 11 else Inr st)
        else Inr (st\<lparr>titleBuff := titleBuff st @ [l]\<rparr>))"
      using False nofence by (auto simp: process_line_def)
    with assms nofence have "st' = buffer_line st l"
      and "length (summary st) \<le> 1 \<longrightarrow> trim l = []"
      by (auto simp: buffer_line_def error_def split: if_splits)
    with False show ?thesis by (auto intro: other)
  qed
qed

lemma buffer_line_simps [simp]:
  "summary (buffer_line st l) = summary st"
  "sections (buffer_line st l) = sections st"
  "sectionBuff (buffer_line st l) = sectionBuff st"
  "mainTitle (buffer_line st l) = mainTitle st"
  "lastSlug (buffer_line st l) = lastSlug st"
  "counter (buffer_line st l) = counter st"
  "firstSection (buffer_line st l) = firstSection st"
  "inCodeBlock (buffer_line st l) = (inCodeBlock st \<noteq> startsWith l (js ''```''))"
  by (simp_all add: buffer_line_def)

text \<open>The fields of the state after a title.\<close>

lemma summary_add_title': "summary (add_title R t d st) = summary st @ [new_title R t d st]"
  by (simp add: new_title_def summary_add_title)

lemma new_title_simps [simp]:
  "depth (new_title R t d st) = d"
  "slug (new_title R t d st) = slug_of R t"
  "title_text (new_title R t d st) = renderInline R t"
  "section_slug (new_title R t d st) = (if d = 2 then slug_of R t else lastSlug st)"
  "prettydepth (new_title R t d st) = prettydepth_of d (advance_counter d (counter st))"
  by (simp_all add: new_title_def summary_add_title make_title_obj_def close_section_def
      flush_titleBuff_def Let_def)

lemma add_title_simps [simp]:
  "inCodeBlock (add_title R t d st) = inCodeBlock st"
  "counter (add_title R t d st) = advance_counter d (counter st)"
  "lastSlug (add_title R t d st) = (if d = 2 then slug_of R t else lastSlug st)"
  "firstSection (add_title R t d st) = (if d = 2 then False else firstSection st)"
  "titleBuff (add_title R t d st) = (if d \<ge> 2 then [] else titleBuff st)"
  "mainTitle (add_title R t d st) = (if d = 1 then Some (new_title R t d st) else mainTitle st)"
  by (simp_all add: new_title_def add_title_def push_title_def Let_def make_title_obj_def
      close_section_def flush_titleBuff_def)

lemma sections_add_title:
  "sections (add_title R t d st) =
     (if d = 2 \<and> \<not> firstSection st
      then sections st @ [\<lparr>sec_slug = lastSlug st, sec_content = sectionBuff (flush_titleBuff R st)\<rparr>]
      else sections st)"
  by (simp add: add_title_def push_title_def Let_def make_title_obj_def
      close_section_def flush_titleBuff_def)

lemma sectionBuff_add_title:
  "sectionBuff (add_title R t d st) =
     (if d = 1 then sectionBuff st
      else if d = 2 \<and> \<not> firstSection st then [Title (new_title R t d st)]
      else sectionBuff (if d \<ge> 2 then flush_titleBuff R st else st) @ [Title (new_title R t d st)])"
  by (simp add: new_title_def add_title_def push_title_def Let_def make_title_obj_def
      close_section_def flush_titleBuff_def)

lemma sectionBuff_flush:
  "set (sectionBuff (flush_titleBuff R st)) \<subseteq> set (sectionBuff st) \<union> range Content"
  by (auto simp: flush_titleBuff_def Let_def)

text \<open>Invariants of the loop.\<close>

lemma process_lines_snoc:
  "process_lines R s (xs @ [x]) = Inr st' \<longleftrightarrow>
     (\<exists>st. process_lines R s xs = Inr st \<and> process_line R st x = Inr st')"
  by (auto simp: process_lines_append split: sum.splits)

lemma process_lines_invariant:
  assumes "process_lines R s ls = Inr s'" and "P [] s"
    and "\<And>xs st l st'. P xs st \<Longrightarrow> process_line R st l = Inr st' \<Longrightarrow> P (xs @ [l]) st'"
  shows "P ls s'"
  using assms(1)
proof (induction ls arbitrary: s' rule: rev_induct)
  case Nil
  then show ?case using assms(2) by simp
next
  case (snoc x xs)
  then obtain st where "process_lines R s xs = Inr st" and "process_line R st x = Inr s'"
    by (auto simp: process_lines_snoc)
  then show ?case using snoc.IH assms(3) by blast
qed

lemma inCodeBlock_process_lines:
  assumes "process_lines R s ls = Inr s'"
  shows "inCodeBlock s' = (inCodeBlock s \<noteq> odd (fence_count ls))"
  using assms
proof (induction ls arbitrary: s' rule: rev_induct)
  case Nil
  then show ?case by (simp add: fence_count_def)
next
  case (snoc x xs)
  then obtain st where a: "process_lines R s xs = Inr st" and b: "process_line R st x = Inr s'"
    by (auto simp: process_lines_snoc)
  from b have "inCodeBlock s' = (inCodeBlock st \<noteq> startsWith x (js ''```''))"
    by (cases rule: process_line_cases) (auto dest: startsWith_fence_not_hash)
  with snoc.IH [OF a] show ?case
    by (auto simp: fence_count_def)
qed

lemma in_block_two_titles:
  assumes "process_lines R init_state ls = Inr st" and "inCodeBlock st"
  shows "2 \<le> length (summary st)"
proof -
  have "inCodeBlock st \<longrightarrow> 2 \<le> length (summary st)"
    using assms(1)
  proof (rule process_lines_invariant [where P = "\<lambda>xs st. inCodeBlock st \<longrightarrow> 2 \<le> length (summary st)"])
    show "inCodeBlock init_state \<longrightarrow> 2 \<le> length (summary init_state)"
      by (simp add: init_state_def)
  next
    fix xs st l st'
    assume inv: "inCodeBlock st \<longrightarrow> 2 \<le> length (summary st)"
      and step: "process_line R st l = Inr st'"
    from step show "inCodeBlock st' \<longrightarrow> 2 \<le> length (summary st')"
    proof (cases rule: process_line_cases)
      case title
      then show ?thesis by simp
    next
      case other
      then show ?thesis
        using inv fence_not_blank [of l] by auto
    qed
  qed
  with assms(2) show ?thesis by simp
qed

subsection \<open>Content before the first section\<close>

text \<open>
  Claim C7. Let the loop reach a line that is not taken as a title (it does not start with
  a hash, or it lies in a code block) while \<open>summary\<close> has at most one entry. If the line is
  not blank the build ends with exit code 11, content outside a section. If the line is
  blank it is accepted and the state stays as it is.
\<close>

theorem content_outside_sections:
  assumes "split_lines source = pre @ l # post"
    and "process_lines R init_state pre = Inr st"
    and "length (summary st) \<le> 1"
    and "\<not> (startsWith l (js ''#'') \<and> \<not> inCodeBlock st)"
  shows "(trim l \<noteq> [] \<longrightarrow> build R template output_folder name source = Inl (Exit 11))
       \<and> (trim l = [] \<longrightarrow> process_line R st l = Inr st)"
proof (cases "startsWith l (js ''```'')")
  case True
  then show ?thesis
    using assms(3) build_failure [OF assms(1,2)] fence_not_blank [of l]
    by (simp add: process_line_fence error_def)
next
  case False
  have "process_line R st l =
     (if trim l \<noteq> [] then error 11 else Inr st)"
    using False assms(3,4) by (auto simp: process_line_def)
  then show ?thesis
    using build_failure [OF assms(1,2)] by (simp add: error_def)
qed

theorem content_outside_sections_witness:
  "build plain_host plain_template (js ''build/books'') (js ''hybrid'')
     (js ''# A'' @ [LF] @ js ''text'') = Inl (Exit 11)
   \<and> process_line plain_host (add_title plain_host (js ''A'') 1 init_state) []
       = Inr (add_title plain_host (js ''A'') 1 init_state)"
proof -
  have a: "split_lines (js ''# A'' @ [LF] @ js ''text'') = [js ''# A''] @ js ''text'' # []"
    by code_simp
  have a': "split_lines (js ''# A'' @ [LF]) = [js ''# A''] @ [] # []" by code_simp
  have b: "process_lines plain_host init_state [js ''# A'']
      = Inr (add_title plain_host (js ''A'') 1 init_state)" by code_simp
  have c: "length (summary (add_title plain_host (js ''A'') 1 init_state)) \<le> 1" by code_simp
  have d: "\<not> (startsWith (js ''text'') (js ''#'')
      \<and> \<not> inCodeBlock (add_title plain_host (js ''A'') 1 init_state))"
    by code_simp
  have d': "\<not> (startsWith [] (js ''#'')
      \<and> \<not> inCodeBlock (add_title plain_host (js ''A'') 1 init_state))"
    by code_simp
  have e: "trim (js ''text'') \<noteq> []" by code_simp
  have e': "trim [] = []" by code_simp
  show ?thesis
    using content_outside_sections [OF a b c d, of plain_template "js ''build/books''" "js ''hybrid''"] e
      content_outside_sections [OF a' b c d', of plain_template "js ''build/books''" "js ''hybrid''"] e'
    by simp
qed

subsection \<open>Code blocks\<close>

text \<open>
  Claim C8. Let the lines \<open>pre\<close> have been processed without failure. A line that starts
  with a hash and lies in a code block (an odd number of fence lines comes before it) is
  not taken as a title: it is appended to the buffer of content lines and nothing else
  changes, so \<open>summary\<close>, \<open>sections\<close> and the section buffer receive no entry. A fence
  line is not taken as a title either: it toggles the flag and is buffered as content, or,
  before the first section, ends the build with exit code 11.
\<close>

theorem code_block_lines:
  assumes "process_lines R init_state pre = Inr st"
  shows "(odd (fence_count pre) \<and> startsWith l (js ''#'') \<longrightarrow>
           process_line R st l = Inr (st\<lparr>titleBuff := titleBuff st @ [l]\<rparr>))
       \<and> (startsWith l (js ''```'') \<longrightarrow>
           process_line R st l =
             (if length (summary st) \<le> 1 then Inl (Exit 11)
              else Inr (st\<lparr>inCodeBlock := \<not> inCodeBlock st, titleBuff := titleBuff st @ [l]\<rparr>)))"
proof (intro conjI impI)
  assume h: "odd (fence_count pre) \<and> startsWith l (js ''#'')"
  have "inCodeBlock st"
    using inCodeBlock_process_lines [OF assms] h by (simp add: init_state_def)
  moreover from this have "2 \<le> length (summary st)"
    by (rule in_block_two_titles [OF assms])
  moreover have "\<not> startsWith l (js ''```'')"
    using h startsWith_fence_not_hash by blast
  ultimately show "process_line R st l = Inr (st\<lparr>titleBuff := titleBuff st @ [l]\<rparr>)"
    by (simp add: process_line_in_block)
next
  assume "startsWith l (js ''```'')"
  then show "process_line R st l =
             (if length (summary st) \<le> 1 then Inl (Exit 11)
              else Inr (st\<lparr>inCodeBlock := \<not> inCodeBlock st, titleBuff := titleBuff st @ [l]\<rparr>))"
    by (simp add: process_line_fence error_def)
qed

theorem code_block_lines_witness:
  "process_line plain_host
     (buffer_line (add_title plain_host (js ''A'') 2 (add_title plain_host (js ''T'') 1 init_state))
        (js ''```''))
     (js ''# code'')
   = Inr ((buffer_line (add_title plain_host (js ''A'') 2 (add_title plain_host (js ''T'') 1 init_state))
            (js ''```''))
          \<lparr>titleBuff := [js ''```'', js ''# code'']\<rparr>)
   \<and> process_line plain_host (add_title plain_host (js ''T'') 1 init_state) (js ''```'')
     = Inl (Exit 11)"
proof -
  let ?st = "buffer_line (add_title plain_host (js ''A'') 2
      (add_title plain_host (js ''T'') 1 init_state)) (js ''```'')"
  have a: "process_lines plain_host init_state [js ''# T'', js ''## A'', js ''```''] = Inr ?st"
    by code_simp
  have b: "odd (fence_count [js ''# T'', js ''## A'', js ''```''])
      \<and> startsWith (js ''# code'') (js ''#'')"
    by code_simp
  have c: "titleBuff ?st = [js ''```'']"
    by code_simp
  have a': "process_lines plain_host init_state [js ''# T'']
      = Inr (add_title plain_host (js ''T'') 1 init_state)"
    by code_simp
  have b': "startsWith (js ''```'') (js ''```'')" by code_simp
  have c': "length (summary (add_title plain_host (js ''T'') 1 init_state)) \<le> 1" by code_simp
  show ?thesis
    using code_block_lines [OF a, of "js ''# code''"] b c
      code_block_lines [OF a', of "js ''```''"] b' c'
    by simp
qed

subsection \<open>Lines that start with a hash\<close>

text \<open>
  Claim C3 fails on the code: the pattern of line 173 allows no space between the hashes
  and the text. At the start of a document the line \<open>#foo\<close> is taken as the main title,
  with depth 1 and text \<open>foo\<close>, and enters \<open>summary\<close>.
\<close>

theorem hash_without_space_counterexample:
  "process_line plain_host init_state (js ''#foo'') =
     Inr (init_state
       \<lparr>summary :=
          [\<lparr>title_text = js ''foo'', slug = js ''foo'', depth = 1, section_slug = [],
            is_main_title = True, is_section = False, is_subtitle = False,
            is_max_subtitle = True, is_subsubtitle_or_more = False, depth_dec = 0,
            prettydepth = js ''0.''\<rparr>],
        mainTitle :=
          Some \<lparr>title_text = js ''foo'', slug = js ''foo'', depth = 1, section_slug = [],
            is_main_title = True, is_section = False, is_subtitle = False,
            is_max_subtitle = True, is_subsubtitle_or_more = False, depth_dec = 0,
            prettydepth = js ''0.''\<rparr>\<rparr>)"
  by code_simp

text \<open>
  A separator after the hashes: the pattern does not match and the build ends with the
  \<^verbatim>\<open>TypeError\<close> of line 176. The amended claim leaves such lines out.
\<close>

lemma separator_in_title_throws:
  "process_line plain_host (add_title plain_host (js ''T'') 1 init_state)
     (js ''## a'' @ [LS] @ js ''b'') = Inl TypeError"
  by code_simp

text \<open>
  Claim C3 as amended. Every line of the source that starts with a hash outside a code
  block and holds neither of the separators U+2028 and U+2029 is taken as a title, whether
  or not a space follows the hashes: its depth is the number of leading hashes, which is at
  least 1, and its text is the rest of the line after the spaces that follow them. Unless
  one of the two title checks ends the build (exit code 9 or 10), one title object with
  this depth and this text is appended to \<open>summary\<close>.
\<close>

theorem hash_line_is_title:
  assumes "split_lines source = pre @ l # post"
    and "process_lines R init_state pre = Inr st"
    and "\<not> inCodeBlock st" and "startsWith l (js ''#'')"
    and "LS \<notin> set l" and "PS \<notin> set l"
  shows "process_line R st l =
           (if summary st = [] \<and> length (hashes_of l) \<noteq> 1 then Inl (Exit 9)
            else if summary st \<noteq> [] \<and> length (hashes_of l) = 1 then Inl (Exit 10)
            else Inr (add_title R (title_of l) (length (hashes_of l)) st))
       \<and> summary (add_title R (title_of l) (length (hashes_of l)) st)
           = summary st @ [new_title R (title_of l) (length (hashes_of l)) st]
       \<and> depth (new_title R (title_of l) (length (hashes_of l)) st) = length (hashes_of l)
       \<and> title_text (new_title R (title_of l) (length (hashes_of l)) st)
           = renderInline R (title_of l)
       \<and> slug (new_title R (title_of l) (length (hashes_of l)) st) = slug_of R (title_of l)
       \<and> 1 \<le> length (hashes_of l)"
proof -
  have "l \<in> set (split_lines source)"
    using assms(1) by simp
  then have "LF \<notin> set l \<and> CR \<notin> set l"
    by (rule split_lines_no_LF_CR)
  with assms(5,6) have nt: "\<not> list_ex is_line_terminator l"
    by (auto simp: list_ex_iff is_line_terminator_def)
  have m: "heading_match l = Some (hashes_of l, title_of l)"
    by (rule heading_match_Some [OF assms(4) nt])
  have "process_line R st l = process_title R st l"
    using assms(3,4) by (simp add: process_line_title)
  moreover have "1 \<le> length (hashes_of l)"
    using hashes_of_nonempty [OF assms(4)] by (cases "hashes_of l") auto
  ultimately show ?thesis
    using process_title_eq [OF m, of R st]
    by (simp add: summary_add_title')
qed

theorem hash_line_is_title_witness:
  "process_line plain_host init_state (js ''#foo'')
     = Inr (add_title plain_host (js ''foo'') 1 init_state)
   \<and> summary (add_title plain_host (js ''foo'') 1 init_state)
     = [new_title plain_host (js ''foo'') 1 init_state]
   \<and> depth (new_title plain_host (js ''foo'') 1 init_state) = 1
   \<and> title_text (new_title plain_host (js ''foo'') 1 init_state) = js ''foo''
   \<and> slug (new_title plain_host (js ''foo'') 1 init_state) = js ''foo''"
proof -
  have a: "split_lines (js ''#foo'') = [] @ js ''#foo'' # []" by code_simp
  have b: "process_lines plain_host init_state [] = Inr init_state" by simp
  have c: "\<not> inCodeBlock init_state" by code_simp
  have d: "startsWith (js ''#foo'') (js ''#'')" by code_simp
  have d1: "LS \<notin> set (js ''#foo'')" by code_simp
  have d2: "PS \<notin> set (js ''#foo'')" by code_simp
  have e: "summary init_state = []" by code_simp
  have f: "length (hashes_of (js ''#foo'')) = 1" by code_simp
  have g: "title_of (js ''#foo'') = js ''foo''" by code_simp
  have h: "renderInline plain_host (js ''foo'') = js ''foo''" by code_simp
  have i: "slug_of plain_host (js ''foo'') = js ''foo''" by code_simp
  show ?thesis
    using hash_line_is_title [OF a b c d d1 d2] e f g h i by simp
qed

subsection \<open>The marker line and the end of the loop\<close>

lemma END_OF_FILE_facts:
  "startsWith END_OF_FILE (js ''#'')"
  "\<not> startsWith END_OF_FILE (js ''```'')"
  "heading_match END_OF_FILE = Some (js ''##'', js ''END OF FILE'')"
  "length (js ''##'') = 2"
  by code_simp+

lemma segment_lines_unclosed:
  assumes "process_lines R init_state ls = Inr st" and "odd (fence_count ls)"
  shows "process_line R st END_OF_FILE = Inr (st\<lparr>titleBuff := titleBuff st @ [END_OF_FILE]\<rparr>)"
    and "segment_lines R ls =
      Inr (st\<lparr>titleBuff := titleBuff st @ [END_OF_FILE], summary := butlast (summary st)\<rparr>)"
    and "2 \<le> length (summary st)"
proof -
  have cb: "inCodeBlock st"
    using inCodeBlock_process_lines [OF assms(1)] assms(2) by (simp add: init_state_def)
  then show two: "2 \<le> length (summary st)"
    by (rule in_block_two_titles [OF assms(1)])
  with cb show step: "process_line R st END_OF_FILE = Inr (st\<lparr>titleBuff := titleBuff st @ [END_OF_FILE]\<rparr>)"
    by (simp add: process_line_in_block END_OF_FILE_facts)
  with assms(1) show "segment_lines R ls =
      Inr (st\<lparr>titleBuff := titleBuff st @ [END_OF_FILE], summary := butlast (summary st)\<rparr>)"
    by (simp add: segment_lines_def process_lines_append)
qed

lemma segment_lines_closed:
  assumes "process_lines R init_state ls = Inr st" and "even (fence_count ls)"
  shows "process_line R st END_OF_FILE =
      (if summary st = [] then Inl (Exit 9) else Inr (add_title R (js ''END OF FILE'') 2 st))"
    and "segment_lines R ls =
      (if summary st = [] then Inl (Exit 9)
       else Inr ((add_title R (js ''END OF FILE'') 2 st)\<lparr>summary := summary st\<rparr>))"
proof -
  have cb: "\<not> inCodeBlock st"
    using inCodeBlock_process_lines [OF assms(1)] assms(2) by (simp add: init_state_def)
  then show step: "process_line R st END_OF_FILE =
      (if summary st = [] then Inl (Exit 9) else Inr (add_title R (js ''END OF FILE'') 2 st))"
    using process_title_eq [OF END_OF_FILE_facts(3), of R st]
    by (simp add: process_line_title END_OF_FILE_facts)
  with assms(1) show "segment_lines R ls =
      (if summary st = [] then Inl (Exit 9)
       else Inr ((add_title R (js ''END OF FILE'') 2 st)\<lparr>summary := summary st\<rparr>))"
    by (simp add: segment_lines_def process_lines_append summary_add_title')
qed

text \<open>
  Claim C10 fails on the code as it is stated. The source of the two lines \<open># T\<close> and
  a fence has an odd number of fence lines and one title, yet the marker line is never
  reached: the fence line comes before the first section and ends the build with exit
  code 11.
\<close>

theorem unclosed_code_block_counterexample:
  "odd (fence_count (split_lines (js ''# T'' @ [LF] @ js ''```'')))
   \<and> heading_depths False (split_lines (js ''# T'' @ [LF] @ js ''```'')) = [1]
   \<and> process_lines plain_host init_state (split_lines (js ''# T'' @ [LF] @ js ''```''))
       = Inl (Exit 11)
   \<and> segment plain_host (js ''# T'' @ [LF] @ js ''```'') = Inl (Exit 11)"
  by code_simp

text \<open>
  Claim C10 as amended. Let the source have an odd number of fence lines and let the loop
  reach the end of its lines without failure. Then the marker line is met inside a code
  block: it is not a title and is buffered as a content line. At least two titles have
  been seen, the final \<open>summary.pop()\<close> removes the last of them, and the state is
  otherwise the one after the last line of the source: \<open>sections\<close> has not received the
  section that is open at the end, which remains in the section buffer.
\<close>

theorem unclosed_code_block:
  assumes "odd (fence_count (split_lines source))"
    and "process_lines R init_state (split_lines source) = Inr st"
  shows "process_line R st END_OF_FILE = Inr (st\<lparr>titleBuff := titleBuff st @ [END_OF_FILE]\<rparr>)
       \<and> segment R source =
           Inr (st\<lparr>titleBuff := titleBuff st @ [END_OF_FILE], summary := butlast (summary st)\<rparr>)
       \<and> 2 \<le> length (summary st)"
  using segment_lines_unclosed [OF assms(2,1)] by (simp add: segment_def)

theorem unclosed_code_block_witness:
  "segment plain_host (js ''# T'' @ [LF] @ js ''## A'' @ [LF] @ js ''```'') =
     Inr ((buffer_line (add_title plain_host (js ''A'') 2 (add_title plain_host (js ''T'') 1 init_state))
            (js ''```''))
        \<lparr>titleBuff := [js ''```'', END_OF_FILE],
         summary := [new_title plain_host (js ''T'') 1 init_state]\<rparr>)"
proof -
  let ?src = "js ''# T'' @ [LF] @ js ''## A'' @ [LF] @ js ''```''"
  let ?st = "buffer_line (add_title plain_host (js ''A'') 2
      (add_title plain_host (js ''T'') 1 init_state)) (js ''```'')"
  have a: "odd (fence_count (split_lines ?src))"
    by code_simp
  have b: "process_lines plain_host init_state (split_lines ?src) = Inr ?st"
    by code_simp
  have c: "titleBuff ?st = [js ''```'']"
    by code_simp
  have d: "butlast (summary ?st) = [new_title plain_host (js ''T'') 1 init_state]"
    by code_simp
  show ?thesis
    using unclosed_code_block [OF a b] c d by simp
qed

subsection \<open>Counting sections\<close>

lemma heading_depths_other:
  "\<not> (startsWith l (js ''#'') \<and> \<not> b) \<Longrightarrow>
   heading_depths b (l # ls) = heading_depths (b \<noteq> startsWith l (js ''```'')) ls"
  using startsWith_fence_not_hash [of l] by (auto simp: Let_def)

lemma heading_depths_title:
  "startsWith l (js ''#'') \<Longrightarrow>
   heading_depths False (l # ls) = length (hashes_of l) # heading_depths False ls"
  using startsWith_fence_not_hash [of l] by (auto simp: Let_def)












subsection \<open>The slug of the enclosing section\<close>

lemma last_section_slug_snoc:
  "last_section_slug (xs @ [t]) = (if depth t = 2 then slug t else last_section_slug xs)"
  by (simp add: last_section_slug_def)

lemma last_section_slug_Nil: "last_section_slug [] = []"
  by (simp add: last_section_slug_def)

lemma lastSlug_invariant:
  assumes "process_lines R init_state ls = Inr st"
  shows "lastSlug st = last_section_slug (summary st)
       \<and> (\<forall>t. mainTitle st = Some t \<longrightarrow> section_slug t = [])"
  using assms
proof (rule process_lines_invariant)
  show "lastSlug init_state = last_section_slug (summary init_state)
       \<and> (\<forall>t. mainTitle init_state = Some t \<longrightarrow> section_slug t = [])"
    by (simp add: init_state_def last_section_slug_Nil)
next
  fix xs :: "string list" and st l st'
  assume inv: "lastSlug st = last_section_slug (summary st)
       \<and> (\<forall>t. mainTitle st = Some t \<longrightarrow> section_slug t = [])"
    and step: "process_line R st l = Inr st'"
  from step show "lastSlug st' = last_section_slug (summary st')
       \<and> (\<forall>t. mainTitle st' = Some t \<longrightarrow> section_slug t = [])"
  proof (cases rule: process_line_cases)
    case title
    then show ?thesis
      using inv by (auto simp: summary_add_title' last_section_slug_snoc last_section_slug_Nil)
  next
    case other
    then show ?thesis using inv by simp
  qed
qed

lemma section_slug_invariant:
  assumes "process_lines R init_state ls = Inr st"
  shows "\<forall>xs t ys. summary st = xs @ t # ys \<longrightarrow>
           (depth t = 2 \<longrightarrow> section_slug t = slug t)
         \<and> (depth t \<noteq> 2 \<longrightarrow> section_slug t = last_section_slug xs)
         \<and> (depth t = 1 \<longrightarrow> xs = [])"
  using assms
proof (induction ls arbitrary: st rule: rev_induct)
  case Nil
  then show ?case by (auto simp: init_state_def)
next
  case (snoc l ls)
  then obtain st0 where a: "process_lines R init_state ls = Inr st0"
    and b: "process_line R st0 l = Inr st"
    by (auto simp: process_lines_snoc)
  note IH = snoc.IH [OF a]
  from b show ?case
  proof (cases rule: process_line_cases)
    case title
    let ?d = "length (hashes_of l)"
    let ?nt = "new_title R (title_of l) ?d st0"
    have sum: "summary st = summary st0 @ [?nt]"
      using title by (simp add: summary_add_title')
    have ls: "lastSlug st0 = last_section_slug (summary st0)"
      using lastSlug_invariant [OF a] by simp
    show ?thesis
    proof (intro allI impI)
      fix xs t ys
      assume dec: "summary st = xs @ t # ys"
      show "(depth t = 2 \<longrightarrow> section_slug t = slug t)
         \<and> (depth t \<noteq> 2 \<longrightarrow> section_slug t = last_section_slug xs)
         \<and> (depth t = 1 \<longrightarrow> xs = [])"
      proof (cases ys rule: rev_cases)
        case Nil
        with dec sum have "xs = summary st0" and "t = ?nt" by auto
        then show ?thesis
          using ls title(4) by auto
      next
        case (snoc ys' y)
        with dec sum have "summary st0 = xs @ t # ys'" by auto
        with IH show ?thesis by blast
      qed
    qed
  next
    case other
    then show ?thesis using IH by simp
  qed
qed

lemma flush_titles:
  "Title t \<in> set (sectionBuff (flush_titleBuff R st)) \<Longrightarrow> Title t \<in> set (sectionBuff st)"
  using sectionBuff_flush [of R st] by auto

lemma sectionBuff_add_title_titles:
  assumes "Title t \<in> set (sectionBuff (add_title R ti d st))"
  shows "t = new_title R ti d st \<or> Title t \<in> set (sectionBuff st)"
proof (cases "d = 1")
  case True
  then show ?thesis using assms by (simp add: sectionBuff_add_title)
next
  case False
  show ?thesis
  proof (cases "d = 2 \<and> \<not> firstSection st")
    case True
    then show ?thesis using assms by (simp add: sectionBuff_add_title)
  next
    case nf: False
    with False assms have "t = new_title R ti d st
        \<or> Title t \<in> set (sectionBuff (if 2 \<le> d then flush_titleBuff R st else st))"
      by (simp add: sectionBuff_add_title)
    then show ?thesis
      using flush_titles [of t R st] by (auto split: if_splits)
  qed
qed

lemma sections_add_title_titles:
  assumes "sec \<in> set (sections (add_title R ti d st))" and "Title t \<in> set (sec_content sec)"
  shows "sec \<in> set (sections st) \<or> Title t \<in> set (sectionBuff st)"
proof (cases "d = 2 \<and> \<not> firstSection st")
  case True
  with assms(1) have "sec \<in> set (sections st)
      \<or> sec = \<lparr>sec_slug = lastSlug st, sec_content = sectionBuff (flush_titleBuff R st)\<rparr>"
    by (auto simp: sections_add_title)
  then show ?thesis
    using assms(2) flush_titles [of t R st] by auto
next
  case False
  then show ?thesis using assms(1) by (auto simp: sections_add_title)
qed

lemma titles_invariant:
  assumes "process_lines R init_state ls = Inr st"
  shows "(\<forall>t. Title t \<in> set (sectionBuff st) \<longrightarrow> t \<in> set (summary st))
       \<and> (\<forall>sec\<in>set (sections st). \<forall>t. Title t \<in> set (sec_content sec) \<longrightarrow>
             t \<in> set (butlast (summary st)))"
  using assms
proof (rule process_lines_invariant)
  show "(\<forall>t. Title t \<in> set (sectionBuff init_state) \<longrightarrow> t \<in> set (summary init_state))
       \<and> (\<forall>sec\<in>set (sections init_state). \<forall>t. Title t \<in> set (sec_content sec) \<longrightarrow>
             t \<in> set (butlast (summary init_state)))"
    by (simp add: init_state_def)
next
  fix xs :: "string list" and st l st'
  assume inv: "(\<forall>t. Title t \<in> set (sectionBuff st) \<longrightarrow> t \<in> set (summary st))
       \<and> (\<forall>sec\<in>set (sections st). \<forall>t. Title t \<in> set (sec_content sec) \<longrightarrow>
             t \<in> set (butlast (summary st)))"
    and step: "process_line R st l = Inr st'"
  from step show "(\<forall>t. Title t \<in> set (sectionBuff st') \<longrightarrow> t \<in> set (summary st'))
       \<and> (\<forall>sec\<in>set (sections st'). \<forall>t. Title t \<in> set (sec_content sec) \<longrightarrow>
             t \<in> set (butlast (summary st')))"
  proof (cases rule: process_line_cases)
    case title
    let ?d = "length (hashes_of l)"
    let ?nt = "new_title R (title_of l) ?d st"
    have sum: "summary st' = summary st @ [?nt]"
      using title by (simp add: summary_add_title')
    have old: "t \<in> set (summary st)"
      if "sec \<in> set (sections st)" and "Title t \<in> set (sec_content sec)" for sec t
    proof -
      from that inv have "t \<in> set (butlast (summary st))" by blast
      then show ?thesis by (rule in_set_butlastD)
    qed
    have buf: "t \<in> set (summary st)" if "Title t \<in> set (sectionBuff st)" for t
      using that inv by blast
    have "t \<in> set (summary st')" if "Title t \<in> set (sectionBuff st')" for t
    proof -
      from that have "t = ?nt \<or> Title t \<in> set (sectionBuff st)"
        unfolding title(3) by (rule sectionBuff_add_title_titles)
      then show ?thesis
        unfolding sum using buf by auto
    qed
    moreover have "t \<in> set (butlast (summary st'))"
      if a: "sec \<in> set (sections st')" and b: "Title t \<in> set (sec_content sec)" for sec t
    proof -
      from a b have "sec \<in> set (sections st) \<or> Title t \<in> set (sectionBuff st)"
        unfolding title(3) by (rule sections_add_title_titles)
      then have "t \<in> set (summary st)"
        using old b buf by blast
      then show ?thesis
        unfolding sum by simp
    qed
    ultimately show ?thesis by blast
  next
    case other
    then show ?thesis using inv by simp
  qed
qed

text \<open>
  Claim C9. In the result of a build, every title of depth 2 in \<open>summary\<close> has its own slug
  as \<open>section_slug\<close>; every title of depth 3 or more has the slug of the last title of depth
  2 before it (the empty string, the first value of \<open>lastSlug\<close>, when there is none); a
  title of depth 1, and so the main title, has the empty string. The titles held by the
  sections are entries of \<open>summary\<close>, so the same holds for them.
\<close>

theorem section_slugs:
  assumes "segment R source = Inr m"
  shows "(\<forall>xs t ys. summary m = xs @ t # ys \<longrightarrow>
            (depth t = 2 \<longrightarrow> section_slug t = slug t)
          \<and> (3 \<le> depth t \<longrightarrow> section_slug t = last_section_slug xs)
          \<and> (depth t = 1 \<longrightarrow> section_slug t = []))
       \<and> (\<forall>t. mainTitle m = Some t \<longrightarrow> section_slug t = [])
       \<and> (\<forall>sec\<in>set (sections m). \<forall>t. Title t \<in> set (sec_content sec) \<longrightarrow>
             t \<in> set (summary m))"
proof -
  from assms obtain st where run: "process_lines R init_state (split_lines source @ [END_OF_FILE]) = Inr st"
    and m: "m = st\<lparr>summary := butlast (summary st)\<rparr>"
    by (auto simp: segment_def segment_lines_def split: sum.splits)
  have "\<forall>xs t ys. summary m = xs @ t # ys \<longrightarrow>
            (depth t = 2 \<longrightarrow> section_slug t = slug t)
          \<and> (3 \<le> depth t \<longrightarrow> section_slug t = last_section_slug xs)
          \<and> (depth t = 1 \<longrightarrow> section_slug t = [])"
  proof (intro allI impI)
    fix xs t ys
    assume dec: "summary m = xs @ t # ys"
    then have ne: "summary st \<noteq> []"
      using m by auto
    then have "summary st = xs @ t # (ys @ [last (summary st)])"
      using dec m append_butlast_last_id [OF ne] by simp
    with section_slug_invariant [OF run]
    have "(depth t = 2 \<longrightarrow> section_slug t = slug t)
         \<and> (depth t \<noteq> 2 \<longrightarrow> section_slug t = last_section_slug xs)
         \<and> (depth t = 1 \<longrightarrow> xs = [])"
      by blast
    then show "(depth t = 2 \<longrightarrow> section_slug t = slug t)
          \<and> (3 \<le> depth t \<longrightarrow> section_slug t = last_section_slug xs)
          \<and> (depth t = 1 \<longrightarrow> section_slug t = [])"
      by (auto simp: last_section_slug_Nil)
  qed
  moreover have "\<forall>t. mainTitle m = Some t \<longrightarrow> section_slug t = []"
    using lastSlug_invariant [OF run] m by simp
  moreover have "\<forall>sec\<in>set (sections m). \<forall>t. Title t \<in> set (sec_content sec) \<longrightarrow>
             t \<in> set (summary m)"
    using titles_invariant [OF run] m by simp
  ultimately show ?thesis by blast
qed

theorem section_slugs_witness:
  "section_slug
     (new_title plain_host (js ''B'') 3
        (add_title plain_host (js ''A'') 2 (add_title plain_host (js ''T'') 1 init_state))) = js ''a''"
proof -
  let ?s1 = "add_title plain_host (js ''T'') 1 init_state"
  let ?s2 = "add_title plain_host (js ''A'') 2 ?s1"
  let ?s3 = "add_title plain_host (js ''B'') 3 ?s2"
  let ?s4 = "add_title plain_host (js ''END OF FILE'') 2 ?s3"
  have a: "segment plain_host (js ''# T'' @ [LF] @ js ''## A'' @ [LF] @ js ''### B'')
      = Inr (?s4\<lparr>summary := butlast (summary ?s4)\<rparr>)"
    by code_simp
  have b: "summary (?s4\<lparr>summary := butlast (summary ?s4)\<rparr>)
      = [new_title plain_host (js ''T'') 1 init_state, new_title plain_host (js ''A'') 2 ?s1]
        @ new_title plain_host (js ''B'') 3 ?s2 # []"
    by code_simp
  have c: "3 \<le> depth (new_title plain_host (js ''B'') 3 ?s2)"
    by code_simp
  have d: "last_section_slug
      [new_title plain_host (js ''T'') 1 init_state, new_title plain_host (js ''A'') 2 ?s1] = js ''a''"
    by code_simp
  from section_slugs [OF a] b c have "section_slug (new_title plain_host (js ''B'') 3 ?s2)
      = last_section_slug [new_title plain_host (js ''T'') 1 init_state, new_title plain_host (js ''A'') 2 ?s1]"
    by blast
  with d show ?thesis by simp
qed

subsection \<open>The counter\<close>

lemma foldl_update_length:
  "length (foldl (\<lambda>a i. a[i := v]) cs ks) = length cs"
  by (induction ks arbitrary: cs) simp_all

lemma foldl_update_nth:
  "j < length cs \<Longrightarrow>
   foldl (\<lambda>a i. a[i := v]) cs ks ! j = (if j \<in> set ks then v else cs ! j)"
proof (induction ks arbitrary: cs)
  case Nil
  then show ?case by simp
next
  case (Cons i ks)
  have "foldl (\<lambda>a i. a[i := v]) (cs[i := v]) ks ! j
      = (if j \<in> set ks then v else cs[i := v] ! j)"
    using Cons.prems by (intro Cons.IH) simp
  then show ?case
    using Cons.prems by (auto simp: nth_list_update)
qed

lemma length_reset_above [simp]: "length (reset_above d cs) = length cs"
  by (simp add: reset_above_def foldl_update_length)

lemma nth_reset_above:
  "i < length cs \<Longrightarrow> reset_above d cs ! i = (if d < i then Num 0 else cs ! i)"
  by (auto simp: reset_above_def foldl_update_nth)

lemma reset_above_eq:
  "reset_above d cs = take (Suc d) cs @ replicate (length cs - Suc d) (Num 0)"
  by (rule nth_equalityI) (auto simp: nth_reset_above nth_append)

lemma positive_counters_append:
  "positive_counters (xs @ ys) = positive_counters xs @ positive_counters ys"
  by (induction xs rule: positive_counters.induct) simp_all

lemma positive_counters_zeros [simp]: "positive_counters (replicate n (Num 0)) = []"
  by (induction n) simp_all

lemma positive_counters_Num:
  "positive_counters (map Num ns) = filter (\<lambda>n. 0 < n) ns"
  by (induction ns) simp_all

text \<open>Inside the array and on a slot that holds a number.\<close>

lemma advance_counter_in_range:
  assumes "2 \<le> d" and "d < length cs" and "cs ! d = Num n"
  shows "length (advance_counter d cs) = length cs"
    and "advance_counter d cs ! d = Num (n + 1)"
    and "\<And>i. d < i \<Longrightarrow> i < length cs \<Longrightarrow> advance_counter d cs ! i = Num 0"
    and "\<And>i. i < d \<Longrightarrow> advance_counter d cs ! i = cs ! i"
  using assms
  by (simp_all add: advance_counter_def increment_at_def increment_cell_def nth_reset_above)

text \<open>The slots 0, 1 and 2 under a title of any depth.\<close>

lemma advance_counter_low:
  assumes "3 \<le> length cs" and "i \<le> 2" and "d \<noteq> 2" and "d \<noteq> 0"
  shows "advance_counter d cs ! i = cs ! i" and "length cs \<le> length (advance_counter d cs)"
proof -
  have "advance_counter d cs ! i = cs ! i \<and> length cs \<le> length (advance_counter d cs)"
  proof (cases "d = 1")
    case True
    then show ?thesis by (simp add: advance_counter_def)
  next
    case False
    show ?thesis
    proof (cases "d < length cs")
      case True
      then show ?thesis
        using assms False
        by (auto simp: advance_counter_def increment_at_def nth_reset_above)
    next
      case False
      then show ?thesis
        using assms \<open>d \<noteq> 1\<close>
        by (auto simp: advance_counter_def increment_at_def nth_reset_above nth_append)
    qed
  qed
  then show "advance_counter d cs ! i = cs ! i" and "length cs \<le> length (advance_counter d cs)"
    by simp_all
qed

lemma take_three: "3 \<le> length cs \<Longrightarrow> take 3 cs = [cs ! 0, cs ! 1, cs ! 2]"
  by (rule nth_equalityI)
    (auto simp: nth_Cons' less_Suc_eq numeral_3_eq_3 numeral_2_eq_2)

lemma advance_counter_two:
  assumes "3 \<le> length cs" and "cs ! 0 = Num 0" and "cs ! 1 = Num 0" and "cs ! 2 = Num k"
  shows "advance_counter 2 cs = [Num 0, Num 0, Num (k + 1)] @ replicate (length cs - 3) (Num 0)"
proof -
  have "take 3 (cs[2 := Num (k + 1)]) = [Num 0, Num 0, Num (k + 1)]"
    using assms by (simp add: take_three)
  moreover have "Suc 2 = (3::nat)" by simp
  ultimately show ?thesis
    using assms
    by (simp add: advance_counter_def increment_at_def increment_cell_def reset_above_eq)
qed

lemma prettydepth_of_two:
  assumes "3 \<le> length cs" and "cs ! 0 = Num 0" and "cs ! 1 = Num 0" and "cs ! 2 = Num k"
  shows "prettydepth_of 2 (advance_counter 2 cs) = number_string (k + 1) @ js ''.''"
  by (simp add: advance_counter_two [OF assms] prettydepth_of_def positive_counters_append)

subsection \<open>Decimal numerals\<close>

lemma number_string_nonempty: "number_string n \<noteq> []"
  by (subst number_string.simps) simp

lemma digit_char_inj: "a < 10 \<Longrightarrow> b < 10 \<Longrightarrow> digit_char a = digit_char b \<Longrightarrow> a = b"
  by (simp add: digit_char_def)

lemma number_string_inj: "number_string a = number_string b \<Longrightarrow> a = b"
proof (induction a arbitrary: b rule: number_string.induct)
  case (1 n)
  show ?case
  proof (cases "n < 10")
    case True
    then have n: "number_string n = [digit_char n]"
      by (subst number_string.simps) simp
    have "b < 10"
    proof (rule ccontr)
      assume "\<not> b < 10"
      then have "number_string b = number_string (b div 10) @ [digit_char (b mod 10)]"
        by (subst number_string.simps) simp
      with n "1.prems" number_string_nonempty [of "b div 10"] show False by simp
    qed
    then have "number_string b = [digit_char b]"
      by (subst number_string.simps) simp
    with n "1.prems" True \<open>b < 10\<close> show ?thesis
      by (simp add: digit_char_inj)
  next
    case False
    then have n: "number_string n = number_string (n div 10) @ [digit_char (n mod 10)]"
      by (subst number_string.simps) simp
    have "\<not> b < 10"
    proof
      assume "b < 10"
      then have "number_string b = [digit_char b]"
        by (subst number_string.simps) simp
      with n "1.prems" number_string_nonempty [of "n div 10"] show False by simp
    qed
    then have b: "number_string b = number_string (b div 10) @ [digit_char (b mod 10)]"
      by (subst number_string.simps) simp
    from n b "1.prems" have e1: "number_string (n div 10) = number_string (b div 10)"
      and e2: "digit_char (n mod 10) = digit_char (b mod 10)"
      by simp_all
    from "1.IH" [OF False e1] have "n div 10 = b div 10" .
    moreover from e2 have "n mod 10 = b mod 10"
      by (intro digit_char_inj) simp_all
    ultimately show ?thesis
      by (metis div_mult_mod_eq)
  qed
qed

subsection \<open>Numbering labels\<close>

lemma labels_process_lines:
  "process_lines R st ls = Inr st' \<Longrightarrow>
   map prettydepth (summary st') =
     map prettydepth (summary st) @ labels (counter st) (heading_depths (inCodeBlock st) ls)"
proof (induction ls arbitrary: st)
  case Nil
  then show ?case by simp
next
  case (Cons l ls)
  from Cons.prems obtain st1 where a: "process_line R st l = Inr st1"
    and b: "process_lines R st1 ls = Inr st'"
    by (auto split: sum.splits)
  from a show ?case
  proof (cases rule: process_line_cases)
    case title
    then show ?thesis
      using Cons.IH [OF b] by (simp add: summary_add_title' heading_depths_title del: heading_depths.simps)
  next
    case other
    then show ?thesis
      using Cons.IH [OF b] by (simp add: heading_depths_other del: heading_depths.simps)
  qed
qed

text \<open>
  Claim C2 fails on the code for a depth of 5 or more: the array \<open>counter\<close> has the five
  slots 0 to 4. In a document with titles of depths 1, 2, 3, 4, 5 the last title writes
  \<^verbatim>\<open>NaN\<close> into a new slot 5 instead of a count, and its label is the label of the
  title of depth 4 before it.
\<close>

theorem numbering_depth_five_counterexample:
  "counter (projr (process_lines plain_host init_state
      [js ''# T'', js ''## A'', js ''### B'', js ''#### C'', js ''##### D'']))
     = [Num 0, Num 0, Num 1, Num 1, Num 1, NaN]
   \<and> map prettydepth (summary (projr (process_lines plain_host init_state
      [js ''# T'', js ''## A'', js ''### B'', js ''#### C'', js ''##### D''])))
     = [js ''0.'', js ''1.'', js ''1.1.'', js ''1.1.1.'', js ''1.1.1.'']"
  by code_simp

text \<open>The slots 0 to 4 of the counter hold numbers at every point of the loop.\<close>

lemma advance_counter_keeps_numbers:
  assumes "5 \<le> length cs" and "\<forall>i\<le>4. \<exists>n. cs ! i = Num n"
  shows "5 \<le> length (advance_counter d cs) \<and> (\<forall>i\<le>4. \<exists>n. advance_counter d cs ! i = Num n)"
proof (cases "d = 1")
  case True
  then show ?thesis using assms by (simp add: advance_counter_def)
next
  case False
  let ?cs1 = "increment_at d cs"
  have len: "length cs \<le> length ?cs1"
    by (simp add: increment_at_def)
  have num: "\<exists>n. ?cs1 ! i = Num n" if "i \<le> 4" for i
  proof (cases "d < length cs")
    case True
    show ?thesis
    proof (cases "i = d")
      case True
      with assms(2) that obtain n where "cs ! d = Num n" by blast
      with True \<open>d < length cs\<close> show ?thesis
        by (simp add: increment_at_def increment_cell_def)
    next
      case False
      with assms(2) that True show ?thesis
        by (simp add: increment_at_def)
    qed
  next
    case False
    with assms that show ?thesis
      by (simp add: increment_at_def nth_append)
  qed
  have "\<exists>n. reset_above d ?cs1 ! i = Num n" if "i \<le> 4" for i
  proof -
    from that assms(1) len have "i < length ?cs1" by simp
    then show ?thesis
      using num [OF that] by (simp add: nth_reset_above)
  qed
  then show ?thesis
    using False len assms(1) by (simp add: advance_counter_def)
qed

lemma low_slots_numbers:
  assumes "process_lines R init_state ls = Inr st"
  shows "5 \<le> length (counter st) \<and> (\<forall>i\<le>4. \<exists>n. counter st ! i = Num n)"
  using assms
proof (rule process_lines_invariant)
  show "5 \<le> length (counter init_state) \<and> (\<forall>i\<le>4. \<exists>n. counter init_state ! i = Num n)"
    by (simp add: init_state_def nth_Cons' )
next
  fix xs :: "string list" and st l st'
  assume inv: "5 \<le> length (counter st) \<and> (\<forall>i\<le>4. \<exists>n. counter st ! i = Num n)"
    and step: "process_line R st l = Inr st'"
  from step show "5 \<le> length (counter st') \<and> (\<forall>i\<le>4. \<exists>n. counter st' ! i = Num n)"
  proof (cases rule: process_line_cases)
    case title
    then show ?thesis
      using advance_counter_keeps_numbers [of "counter st" "length (hashes_of l)"] inv by simp
  next
    case other
    then show ?thesis using inv by simp
  qed
qed

lemma all_numbers:
  "(\<And>i. i < length cs \<Longrightarrow> \<exists>n. cs ! i = Num n) \<Longrightarrow> \<exists>ns. cs = map Num ns"
proof (induction cs)
  case Nil
  then show ?case by simp
next
  case (Cons c cs)
  from Cons.prems [of 0] obtain n where c: "c = Num n" by auto
  have "\<exists>n. cs ! i = Num n" if "i < length cs" for i
    using Cons.prems [of "Suc i"] that by simp
  from Cons.IH [OF this] obtain ns where "cs = map Num ns" by blast
  with c have "c # cs = map Num (n # ns)" by simp
  then show ?case by (rule exI)
qed

text \<open>
  Claim C2 as amended. Let a title have a depth \<open>d\<close> from 2 to 4, the slots of the array
  of five, at any point of the loop. Slot \<open>d\<close> of \<open>counter\<close> holds a number; the title adds
  1 to it, sets every slot above \<open>d\<close> to 0 and leaves the slots below as they are. All
  slots then hold numbers, and the label of the title is the decimal numerals of the
  non-zero ones, in the order of the slots, joined by dots and followed by a dot. A title
  of depth 1 leaves the counter as it is and has the label \<open>0.\<close>. For every list of lines
  whose titles have the depths 1, 2, 3, 2, 3, 3 the labels are \<open>0.\<close>, \<open>1.\<close>, \<open>1.1.\<close>,
  \<open>2.\<close>, \<open>2.1.\<close>, \<open>2.2.\<close>.
\<close>

theorem numbering:
  assumes "process_lines R init_state pre = Inr st" and "2 \<le> d" and "d \<le> 4"
  shows "(\<exists>n ns. counter st ! d = Num n
           \<and> length (counter (add_title R t d st)) = length (counter st)
           \<and> counter (add_title R t d st) ! d = Num (n + 1)
           \<and> (\<forall>i. d < i \<and> i < length (counter st) \<longrightarrow> counter (add_title R t d st) ! i = Num 0)
           \<and> (\<forall>i<d. counter (add_title R t d st) ! i = counter st ! i)
           \<and> counter (add_title R t d st) = map Num ns
           \<and> prettydepth (new_title R t d st)
               = join (js ''.'') (map number_string (filter (\<lambda>n. 0 < n) ns)) @ js ''.'')
       \<and> counter (add_title R t 1 st) = counter st
       \<and> prettydepth (new_title R t 1 st) = js ''0.''
       \<and> (\<forall>ls st'. process_lines R init_state ls = Inr st'
             \<and> heading_depths False ls = [1, 2, 3, 2, 3, 3] \<longrightarrow>
           map prettydepth (summary st') = [js ''0.'', js ''1.'', js ''1.1.'', js ''2.'', js ''2.1.'', js ''2.2.''])"
proof (intro conjI allI impI)
  let ?cs = "counter st"
  let ?cs' = "advance_counter d ?cs"
  from low_slots_numbers [OF assms(1)] have len: "5 \<le> length ?cs"
    and low: "\<And>i. i \<le> 4 \<Longrightarrow> \<exists>n. ?cs ! i = Num n"
    by blast+
  from low [OF assms(3)] obtain n where n: "?cs ! d = Num n" by blast
  have dl: "d < length ?cs" using len assms(3) by simp
  note r = advance_counter_in_range [OF assms(2) dl n]
  have "\<exists>m. ?cs' ! i = Num m" if "i < length ?cs'" for i
  proof -
    consider "i < d" | "i = d" | "d < i" by linarith
    then show ?thesis
    proof cases
      case 1
      with assms(3) have "i \<le> 4" by simp
      from low [OF this] show ?thesis using r(4) [OF 1] by simp
    next
      case 2
      then show ?thesis using r(2) by simp
    next
      case 3
      then show ?thesis using r(3) [OF 3] that r(1) by simp
    qed
  qed
  from all_numbers [OF this] obtain ns where ns: "?cs' = map Num ns" by blast
  have "prettydepth (new_title R t d st)
      = join (js ''.'') (map number_string (filter (\<lambda>n. 0 < n) ns)) @ js ''.''"
    using assms(2) ns by (simp add: prettydepth_of_def positive_counters_Num)
  then show "\<exists>n ns. counter st ! d = Num n
           \<and> length (counter (add_title R t d st)) = length (counter st)
           \<and> counter (add_title R t d st) ! d = Num (n + 1)
           \<and> (\<forall>i. d < i \<and> i < length (counter st) \<longrightarrow> counter (add_title R t d st) ! i = Num 0)
           \<and> (\<forall>i<d. counter (add_title R t d st) ! i = counter st ! i)
           \<and> counter (add_title R t d st) = map Num ns
           \<and> prettydepth (new_title R t d st)
               = join (js ''.'') (map number_string (filter (\<lambda>n. 0 < n) ns)) @ js ''.''"
    using n r ns by auto
  show "counter (add_title R t 1 st) = counter st"
    by (simp add: advance_counter_def)
  show "prettydepth (new_title R t 1 st) = js ''0.''"
    by (simp add: prettydepth_of_def)
next
  fix ls st'
  assume "process_lines R init_state ls = Inr st' \<and> heading_depths False ls = [1, 2, 3, 2, 3, 3]"
  then have "map prettydepth (summary st')
      = labels [Num 0, Num 0, Num 0, Num 0, Num 0] [1, 2, 3, 2, 3, 3]"
    using labels_process_lines [of R init_state ls st'] by (simp add: init_state_def)
  also have "\<dots> = [js ''0.'', js ''1.'', js ''1.1.'', js ''2.'', js ''2.1.'', js ''2.2.'']"
    by code_simp
  finally show "map prettydepth (summary st') = [js ''0.'', js ''1.'', js ''1.1.'', js ''2.'', js ''2.1.'', js ''2.2.'']" .
qed

theorem numbering_witness:
  "counter (add_title plain_host (js ''A'') 2 (add_title plain_host (js ''T'') 1 init_state)) ! 2 = Num 1
   \<and> prettydepth (new_title plain_host (js ''A'') 2 (add_title plain_host (js ''T'') 1 init_state)) = js ''1.''
   \<and> map prettydepth (summary (projr (process_lines plain_host init_state
        [js ''# T'', js ''## A'', js ''### B'', js ''```'', js ''# no title'', js ''```'', js ''## C'', js ''### D'', js ''### E''])))
     = [js ''0.'', js ''1.'', js ''1.1.'', js ''2.'', js ''2.1.'', js ''2.2.'']"
proof -
  let ?st = "add_title plain_host (js ''T'') 1 init_state"
  let ?ls = "[js ''# T'', js ''## A'', js ''### B'', js ''```'', js ''# no title'', js ''```'', js ''## C'', js ''### D'', js ''### E'']"
  have a: "process_lines plain_host init_state [js ''# T''] = Inr ?st" by code_simp
  have b: "(2::nat) \<le> 2" by simp
  have c: "(2::nat) \<le> 4" by simp
  have d: "counter ?st ! 2 = Num 0" by code_simp
  have e: "counter (add_title plain_host (js ''A'') 2 ?st) = map Num [0, 0, 1, 0, 0]" by code_simp
  have e': "join (js ''.'') (map number_string (filter (\<lambda>n. 0 < n) [0, 0, 1, 0, 0])) @ (js ''.'') = js ''1.''"
    by code_simp
  have f: "process_lines plain_host init_state ?ls
      = Inr (projr (process_lines plain_host init_state ?ls))
      \<and> heading_depths False ?ls = [1, 2, 3, 2, 3, 3]"
    by code_simp
  note n = numbering [OF a b c, where t = "(js ''A'')"]
  from n obtain k ns where k: "counter ?st ! 2 = Num k"
    and g: "counter (add_title plain_host (js ''A'') 2 ?st) ! 2 = Num (k + 1)"
    and ns: "counter (add_title plain_host (js ''A'') 2 ?st) = map Num ns"
    and p: "prettydepth (new_title plain_host (js ''A'') 2 ?st)
      = join (js ''.'') (map number_string (filter (\<lambda>n. 0 < n) ns)) @ js ''.''"
    by blast
  from k d have "k = 0" by simp
  with g have g': "counter (add_title plain_host (js ''A'') 2 ?st) ! 2 = Num 1" by simp
  from ns e have "map Num ns = map Num [0, 0, 1, 0, 0]" by simp
  then have "ns = [0, 0, 1, 0, 0]"
    by (auto simp: map_eq_Cons_conv)
  with p e' have h: "prettydepth (new_title plain_host (js ''A'') 2 ?st) = js ''1.''" by simp
  from n f have i: "map prettydepth (summary (projr (process_lines plain_host init_state ?ls)))
      = [js ''0.'', js ''1.'', js ''1.1.'', js ''2.'', js ''2.1.'', js ''2.2.'']"
    by blast
  from g' h i show ?thesis by blast
qed

subsection \<open>The marker is not part of the result\<close>

lemma section_labels_invariant:
  assumes "process_lines R init_state ls = Inr st"
  shows "\<exists>k. counter st ! 2 = Num k \<and> 3 \<le> length (counter st)
           \<and> counter st ! 0 = Num 0 \<and> counter st ! 1 = Num 0
           \<and> (\<forall>t\<in>set (summary st). depth t = 2 \<longrightarrow>
                 (\<exists>j\<le>k. prettydepth t = number_string j @ js ''.''))"
  using assms
proof (rule process_lines_invariant)
  show "\<exists>k. counter init_state ! 2 = Num k \<and> 3 \<le> length (counter init_state)
           \<and> counter init_state ! 0 = Num 0 \<and> counter init_state ! 1 = Num 0
           \<and> (\<forall>t\<in>set (summary init_state). depth t = 2 \<longrightarrow>
                 (\<exists>j\<le>k. prettydepth t = number_string j @ js ''.''))"
    by (simp add: init_state_def)
next
  fix xs :: "string list" and st l st'
  assume inv: "\<exists>k. counter st ! 2 = Num k \<and> 3 \<le> length (counter st)
           \<and> counter st ! 0 = Num 0 \<and> counter st ! 1 = Num 0
           \<and> (\<forall>t\<in>set (summary st). depth t = 2 \<longrightarrow>
                 (\<exists>j\<le>k. prettydepth t = number_string j @ js ''.''))"
    and step: "process_line R st l = Inr st'"
  from inv obtain k where k: "counter st ! 2 = Num k" and len: "3 \<le> length (counter st)"
    and z0: "counter st ! 0 = Num 0" and z1: "counter st ! 1 = Num 0"
    and lab: "\<And>t. t \<in> set (summary st) \<Longrightarrow> depth t = 2 \<Longrightarrow>
        \<exists>j\<le>k. prettydepth t = number_string j @ js ''.''"
    by blast
  from step show "\<exists>k. counter st' ! 2 = Num k \<and> 3 \<le> length (counter st')
           \<and> counter st' ! 0 = Num 0 \<and> counter st' ! 1 = Num 0
           \<and> (\<forall>t\<in>set (summary st'). depth t = 2 \<longrightarrow>
                 (\<exists>j\<le>k. prettydepth t = number_string j @ js ''.''))"
  proof (cases rule: process_line_cases)
    case title
    let ?d = "length (hashes_of l)"
    let ?nt = "new_title R (title_of l) ?d st"
    have sum: "summary st' = summary st @ [?nt]"
      using title by (simp add: summary_add_title')
    have cnt: "counter st' = advance_counter ?d (counter st)"
      using title by simp
    have d0: "?d \<noteq> 0" using title(5) by simp
    show ?thesis
    proof (cases "?d = 2")
      case True
      have c': "counter st' = [Num 0, Num 0, Num (k + 1)] @ replicate (length (counter st) - 3) (Num 0)"
        using cnt True advance_counter_two [OF len z0 z1 k] by simp
      have p: "prettydepth ?nt = number_string (k + 1) @ js ''.''"
        using True prettydepth_of_two [OF len z0 z1 k] by simp
      have "counter st' ! 2 = Num (k + 1)" and "3 \<le> length (counter st')"
        and "counter st' ! 0 = Num 0" and "counter st' ! 1 = Num 0"
        unfolding c' by simp_all
      moreover have "\<exists>j\<le>k + 1. prettydepth t = number_string j @ js ''.''"
        if "t \<in> set (summary st')" and "depth t = 2" for t
      proof (cases "t = ?nt")
        case True
        then show ?thesis using p by auto
      next
        case False
        with that sum have "t \<in> set (summary st)" by simp
        from lab [OF this that(2)] obtain j where "j \<le> k"
          and "prettydepth t = number_string j @ js ''.''" by blast
        then have "j \<le> k + 1 \<and> prettydepth t = number_string j @ js ''.''" by simp
        then show ?thesis by blast
      qed
      ultimately show ?thesis by blast
    next
      case False
      have low: "advance_counter ?d (counter st) ! i = counter st ! i" if "i \<le> 2" for i
        using advance_counter_low(1) [OF len that False d0] .
      have "length (counter st) \<le> length (advance_counter ?d (counter st))"
        using advance_counter_low(2) [OF len _ False d0, of 0] by simp
      then have "counter st' ! 2 = Num k" and "counter st' ! 0 = Num 0" and "counter st' ! 1 = Num 0"
        and "3 \<le> length (counter st')"
        unfolding cnt
        using low [of 0] low [of 1] low [of 2] k z0 z1 len by simp_all
      moreover have "\<exists>j\<le>k. prettydepth t = number_string j @ js ''.''"
        if "t \<in> set (summary st')" and "depth t = 2" for t
      proof -
        from that False sum have "t \<in> set (summary st)" by auto
        from lab [OF this that(2)] show ?thesis .
      qed
      ultimately show ?thesis by blast
    qed
  next
    case other
    then show ?thesis using inv by simp
  qed
qed

lemma marker_title_fresh:
  assumes "process_lines R init_state ls = Inr st"
  shows "new_title R (js ''END OF FILE'') 2 st \<notin> set (summary st)"
proof
  let ?nt = "new_title R (js ''END OF FILE'') 2 st"
  assume mem: "?nt \<in> set (summary st)"
  from section_labels_invariant [OF assms]
  obtain k where k: "counter st ! 2 = Num k" and len: "3 \<le> length (counter st)"
    and z0: "counter st ! 0 = Num 0" and z1: "counter st ! 1 = Num 0"
    and lab: "\<And>t. t \<in> set (summary st) \<Longrightarrow> depth t = 2 \<Longrightarrow>
        \<exists>j\<le>k. prettydepth t = number_string j @ js ''.''"
    by blast
  have "depth ?nt = 2" by simp
  from lab [OF mem this] obtain j where j: "j \<le> k"
    and "prettydepth ?nt = number_string j @ js ''.''" by blast
  moreover have "prettydepth ?nt = number_string (k + 1) @ js ''.''"
    using prettydepth_of_two [OF len z0 z1 k] by simp
  ultimately have "number_string j = number_string (k + 1)" by simp
  then have "j = k + 1" by (rule number_string_inj)
  with j show False by simp
qed

lemma section_titles_in_summary:
  assumes "process_lines R init_state ls = Inr st"
    and "sec \<in> set (sections st)" and "Title t \<in> set (sec_content sec)"
  shows "t \<in> set (summary st)"
proof -
  from titles_invariant [OF assms(1)] assms(2,3) have "t \<in> set (butlast (summary st))"
    by blast
  then show ?thesis by (rule in_set_butlastD)
qed

lemma buffer_titles_in_summary:
  assumes "process_lines R init_state ls = Inr st" and "Title t \<in> set (sectionBuff st)"
  shows "t \<in> set (summary st)"
  using titles_invariant [OF assms(1)] assms(2) by blast

text \<open>
  Claim C5. Let the build return a result, and let \<open>st\<close> be the state after the last line
  of the source. The returned \<open>summary\<close> is an initial part of the titles of the source
  lines, and every title in a returned section is one of them. The title object made from
  the marker line differs from each of them, so it is neither in the returned \<open>summary\<close>
  nor in a returned section. When the fence lines are paired, the marker is the last title
  of the loop: its object is appended to \<open>summary\<close> and to the section buffer, the final
  \<open>summary.pop()\<close> takes it off again, and the buffer that holds it is not among the
  sections. When a code block is left open, the marker is no title at all.
\<close>

theorem marker_not_in_result:
  assumes "segment R source = Inr m"
  shows "\<exists>st. process_lines R init_state (split_lines source) = Inr st
       \<and> prefix (summary m) (summary st)
       \<and> (\<forall>sec\<in>set (sections m). \<forall>t. Title t \<in> set (sec_content sec) \<longrightarrow> t \<in> set (summary st))
       \<and> new_title R (js ''END OF FILE'') 2 st \<notin> set (summary m)
       \<and> (\<forall>sec\<in>set (sections m). Title (new_title R (js ''END OF FILE'') 2 st) \<notin> set (sec_content sec))
       \<and> (even (fence_count (split_lines source)) \<longrightarrow>
             process_line R st END_OF_FILE = Inr (add_title R (js ''END OF FILE'') 2 st)
           \<and> summary (add_title R (js ''END OF FILE'') 2 st)
               = summary m @ [new_title R (js ''END OF FILE'') 2 st]
           \<and> Title (new_title R (js ''END OF FILE'') 2 st)
               \<in> set (sectionBuff (add_title R (js ''END OF FILE'') 2 st))
           \<and> sections m = sections (add_title R (js ''END OF FILE'') 2 st))
       \<and> (odd (fence_count (split_lines source)) \<longrightarrow>
             process_line R st END_OF_FILE = Inr (st\<lparr>titleBuff := titleBuff st @ [END_OF_FILE]\<rparr>))"
proof -
  let ?ls = "split_lines source"
  from assms obtain st where run: "process_lines R init_state ?ls = Inr st"
    by (auto simp: segment_def segment_lines_def process_lines_append split: sum.splits)
  let ?nt = "new_title R (js ''END OF FILE'') 2 st"
  have fresh: "?nt \<notin> set (summary st)"
    by (rule marker_title_fresh [OF run])
  have main: "prefix (summary m) (summary st)
       \<and> (\<forall>sec\<in>set (sections m). \<forall>t. Title t \<in> set (sec_content sec) \<longrightarrow> t \<in> set (summary st))
       \<and> (even (fence_count ?ls) \<longrightarrow>
             process_line R st END_OF_FILE = Inr (add_title R (js ''END OF FILE'') 2 st)
           \<and> summary (add_title R (js ''END OF FILE'') 2 st) = summary m @ [?nt]
           \<and> Title ?nt \<in> set (sectionBuff (add_title R (js ''END OF FILE'') 2 st))
           \<and> sections m = sections (add_title R (js ''END OF FILE'') 2 st))
       \<and> (odd (fence_count ?ls) \<longrightarrow>
             process_line R st END_OF_FILE = Inr (st\<lparr>titleBuff := titleBuff st @ [END_OF_FILE]\<rparr>))"
  proof (cases "even (fence_count ?ls)")
    case True
    from segment_lines_closed [OF run True] assms
    have ne: "summary st \<noteq> []"
      and step: "process_line R st END_OF_FILE = Inr (add_title R (js ''END OF FILE'') 2 st)"
      and m: "m = (add_title R (js ''END OF FILE'') 2 st)\<lparr>summary := summary st\<rparr>"
      by (auto simp: segment_def split: if_splits)
    have "t \<in> set (summary st)"
      if "sec \<in> set (sections m)" and "Title t \<in> set (sec_content sec)" for sec t
    proof -
      from that m have "sec \<in> set (sections st) \<or> Title t \<in> set (sectionBuff st)"
        using sections_add_title_titles [of sec R "js ''END OF FILE''" 2 st t] by simp
      then show ?thesis
        using section_titles_in_summary [OF run _ that(2)] buffer_titles_in_summary [OF run]
        by blast
    qed
    moreover have "Title ?nt \<in> set (sectionBuff (add_title R (js ''END OF FILE'') 2 st))"
      by (simp add: sectionBuff_add_title)
    ultimately show ?thesis
      using True step m by (simp add: summary_add_title')
  next
    case False
    from segment_lines_unclosed [OF run] False assms
    have step: "process_line R st END_OF_FILE = Inr (st\<lparr>titleBuff := titleBuff st @ [END_OF_FILE]\<rparr>)"
      and m: "m = st\<lparr>titleBuff := titleBuff st @ [END_OF_FILE], summary := butlast (summary st)\<rparr>"
      by (auto simp: segment_def)
    have "prefix (summary m) (summary st)"
      using m by (simp add: prefixeq_butlast)
    moreover have "t \<in> set (summary st)"
      if "sec \<in> set (sections m)" and "Title t \<in> set (sec_content sec)" for sec t
      using that m section_titles_in_summary [OF run] by simp
    ultimately show ?thesis
      using False step by blast
  qed
  then have pre: "prefix (summary m) (summary st)" by blast
  then have "set (summary m) \<subseteq> set (summary st)"
    by (rule set_mono_prefix)
  with fresh have "?nt \<notin> set (summary m)" by blast
  moreover have "\<forall>sec\<in>set (sections m). Title ?nt \<notin> set (sec_content sec)"
    using main fresh by blast
  ultimately show ?thesis
    using run main by blast
qed

theorem marker_not_in_result_witness:
  "\<exists>st. process_lines plain_host init_state (split_lines (js ''# T'' @ [LF] @ js ''## A'')) = Inr st
     \<and> new_title plain_host (js ''END OF FILE'') 2 st
         \<notin> set (summary (projr (segment plain_host (js ''# T'' @ [LF] @ js ''## A''))))
     \<and> summary (add_title plain_host (js ''END OF FILE'') 2 st)
         = summary (projr (segment plain_host (js ''# T'' @ [LF] @ js ''## A'')))
           @ [new_title plain_host (js ''END OF FILE'') 2 st]"
proof -
  let ?src = "js ''# T'' @ [LF] @ js ''## A''"
  have a: "segment plain_host ?src = Inr (projr (segment plain_host ?src))"
    by code_simp
  have b: "even (fence_count (split_lines ?src))"
    by code_simp
  from marker_not_in_result [OF a] b show ?thesis
    by blast
qed

subsection \<open>The slug\<close>

lemma slug_char_ascii: "is_slug_char c \<Longrightarrow> is_ascii c"
  by (auto simp: is_slug_char_def is_ascii_def DASH_def UNDERSCORE_def)

lemma slug_char_fixed:
  assumes "is_slug_char c"
  shows "toLowerCase_ascii c = c" and "c \<noteq> SPACE"
  using assms
  by (auto simp: is_slug_char_def toLowerCase_ascii_def DASH_def UNDERSCORE_def SPACE_def)

lemma slug_of_chars: "list_all is_slug_char (slug_of R t)"
  by (simp add: slug_of_def remove_special_def list_all_iff)

lemma slug_of_fixed:
  assumes "list_all is_slug_char s"
  shows "slug_of R s = s"
proof -
  have "list_all is_ascii s"
    using assms slug_char_ascii by (auto simp: list_all_iff)
  then have "toLocaleLowerCase R s = map toLowerCase_ascii s"
    by (simp add: toLocaleLowerCase_def)
  also have "\<dots> = s"
    using assms by (induction s) (simp_all add: slug_char_fixed)
  finally have low: "toLocaleLowerCase R s = s" .
  have "spaces_to_dashes s = s"
    using assms by (induction s) (simp_all add: spaces_to_dashes_def slug_char_fixed)
  moreover have "remove_special s = s"
    using assms by (induction s) (simp_all add: remove_special_def)
  ultimately show ?thesis
    by (simp add: slug_of_def low)
qed

text \<open>
  Claim C6. The slug is a total function of the title text alone, for every host. Taking
  the slug of a slug gives the slug back, every code unit of a slug is a small letter, a
  digit, a dash or an underscore, the empty text has the empty slug, and the slug of
  \<open>Hello World!\<close> is \<open>hello-world\<close>.
\<close>

theorem slug_idempotent:
  "slug_of R (slug_of R t) = slug_of R t \<and> list_all is_slug_char (slug_of R t)
   \<and> slug_of R [] = [] \<and> slug_of R (js ''Hello World!'') = js ''hello-world''"
proof (intro conjI)
  show "slug_of R (slug_of R t) = slug_of R t"
    by (rule slug_of_fixed) (rule slug_of_chars)
  show "list_all is_slug_char (slug_of R t)"
    by (rule slug_of_chars)
  show "slug_of R [] = []"
    by (simp add: slug_of_def remove_special_def spaces_to_dashes_def toLocaleLowerCase_def)
  have "list_all is_ascii (js ''Hello World!'')"
    by code_simp
  then have "slug_of R (js ''Hello World!'')
      = remove_special (spaces_to_dashes (map toLowerCase_ascii (js ''Hello World!'')))"
    by (simp add: slug_of_def toLocaleLowerCase_def)
  also have "\<dots> = js ''hello-world''"
    by code_simp
  finally show "slug_of R (js ''Hello World!'') = js ''hello-world''" .
qed

end
